theory Spec2Isabelle
  imports Complex_Main "HOL-Library.Word"
begin

section \<open>Python values\<close>

text \<open>
  A Python \<open>str\<close> is a sequence of Unicode code points; it is modelled as a list of
  code points, so that \<open>length\<close> is Python's \<open>len\<close>.  \<open>str\<close> turns an Isabelle
  literal into such a list.  The exceptions that the modelled code can raise are
  \<open>ValueError\<close>, \<open>OverflowError\<close> and \<open>ZeroDivisionError\<close>.
\<close>

type_synonym pystr = "nat list"

definition str :: "string \<Rightarrow> pystr" where
  "str s = map of_char s"

datatype error = ValueError | OverflowError | ZeroDivisionError

subsection \<open>Floats\<close>

text \<open>
  A Python \<open>float\<close> is an IEEE 754 binary64 value: a real number, an infinity or NaN.
  The sign of a zero is not modelled; no operation of the modelled code reads it.
  Every arithmetic result is the exact result rounded to the nearest binary64 value,
  ties to the even significand.

  \<open>ilog2 n\<close> is the position of the leading bit of \<open>n\<close>, and \<open>binade x\<close> the exponent
  \<open>e\<close> with \<open>2^e \<le> |x| < 2^(e+1)\<close>.
\<close>

datatype pyfloat = Finite real | PInf | NInf | NaN

function ilog2 :: "int \<Rightarrow> int" where
  "ilog2 n = (if n < 2 then 0 else ilog2 (n div 2) + 1)"
  by pat_completeness auto
termination
  by (relation "measure nat") auto

declare ilog2.simps [simp del]

definition binade :: "real \<Rightarrow> int" where
  "binade x =
     (if 1 \<le> \<bar>x\<bar> then ilog2 \<lfloor>\<bar>x\<bar>\<rfloor>
      else if x = 0 then 0
      else - (ilog2 (\<lceil>1 / \<bar>x\<bar>\<rceil> - 1) + 1))"

text \<open>Rounding to the nearest integer, ties to the even one.\<close>

definition round_even :: "real \<Rightarrow> int" where
  "round_even x =
     (if x - of_int \<lfloor>x\<rfloor> < 1 / 2 then \<lfloor>x\<rfloor>
      else if 1 / 2 < x - of_int \<lfloor>x\<rfloor> then \<lfloor>x\<rfloor> + 1
      else if even \<lfloor>x\<rfloor> then \<lfloor>x\<rfloor> else \<lfloor>x\<rfloor> + 1)"

text \<open>
  The spacing of the binary64 values around \<open>x\<close>: 53 significant bits, and the
  spacing of the subnormal values below \<open>2^-1022\<close>.
\<close>

definition quantum :: "real \<Rightarrow> real" where
  "quantum x = 2 powi (max (binade x) (- 1022) - 52)"

text \<open>
  \<open>rnd x\<close> is \<open>x\<close> rounded with an unbounded exponent; \<open>fl x\<close> is the float that an
  operation with the exact result \<open>x\<close> returns, an infinity from \<open>2^1024\<close> on.
\<close>

definition rnd :: "real \<Rightarrow> real" where
  "rnd x = of_int (round_even (x / quantum x)) * quantum x"

definition fl :: "real \<Rightarrow> pyfloat" where
  "fl x = (if 2 ^ 1024 \<le> rnd x then PInf else if rnd x \<le> - (2 ^ 1024) then NInf else Finite (rnd x))"

text \<open>
  \<open>float(n)\<close> for an \<open>int\<close>, as Python converts an integer operand of a float
  operation: correctly rounded, and \<open>OverflowError\<close> when the result is not finite.
\<close>

definition to_float :: "int \<Rightarrow> error + pyfloat" where
  "to_float n = (case fl (of_int n) of Finite r \<Rightarrow> Inr (Finite r) | _ \<Rightarrow> Inl OverflowError)"

text \<open>\<open>a / b\<close> on floats; Python raises \<open>ZeroDivisionError\<close> for a zero divisor.\<close>

fun truediv :: "pyfloat \<Rightarrow> pyfloat \<Rightarrow> error + pyfloat" where
  "truediv a (Finite y) =
     (if y = 0 then Inl ZeroDivisionError
      else Inr (case a of
                  Finite x \<Rightarrow> fl (x / y)
                | PInf \<Rightarrow> if 0 < y then PInf else NInf
                | NInf \<Rightarrow> if 0 < y then NInf else PInf
                | NaN \<Rightarrow> NaN))"
| "truediv a PInf = Inr (case a of Finite x \<Rightarrow> Finite 0 | _ \<Rightarrow> NaN)"
| "truediv a NInf = Inr (case a of Finite x \<Rightarrow> Finite 0 | _ \<Rightarrow> NaN)"
| "truediv a NaN = Inr NaN"

text \<open>\<open>a + b\<close> and \<open>a * b\<close> on floats; they do not raise.\<close>

fun fadd :: "pyfloat \<Rightarrow> pyfloat \<Rightarrow> pyfloat" where
  "fadd (Finite x) (Finite y) = fl (x + y)"
| "fadd NaN b = NaN"
| "fadd a NaN = NaN"
| "fadd PInf NInf = NaN"
| "fadd NInf PInf = NaN"
| "fadd PInf b = PInf"
| "fadd NInf b = NInf"
| "fadd a PInf = PInf"
| "fadd a NInf = NInf"

fun fmul :: "pyfloat \<Rightarrow> pyfloat \<Rightarrow> pyfloat" where
  "fmul (Finite x) (Finite y) = fl (x * y)"
| "fmul NaN b = NaN"
| "fmul a NaN = NaN"
| "fmul (Finite x) PInf = (if x = 0 then NaN else if 0 < x then PInf else NInf)"
| "fmul (Finite x) NInf = (if x = 0 then NaN else if 0 < x then NInf else PInf)"
| "fmul PInf (Finite y) = (if y = 0 then NaN else if 0 < y then PInf else NInf)"
| "fmul NInf (Finite y) = (if y = 0 then NaN else if 0 < y then NInf else PInf)"
| "fmul PInf PInf = PInf"
| "fmul NInf NInf = PInf"
| "fmul PInf NInf = NInf"
| "fmul NInf PInf = NInf"

text \<open>
  \<open>int(a)\<close> on a float: truncation towards zero, \<open>OverflowError\<close> for an infinity,
  \<open>ValueError\<close> for NaN.
\<close>

fun py_int :: "pyfloat \<Rightarrow> error + int" where
  "py_int (Finite r) = Inr (if 0 \<le> r then \<lfloor>r\<rfloor> else \<lceil>r\<rceil>)"
| "py_int PInf = Inl OverflowError"
| "py_int NInf = Inl OverflowError"
| "py_int NaN = Inl ValueError"

text \<open>A number that is an \<open>int\<close> or a \<open>float\<close>.\<close>

datatype pynum = PyInt int | PyFloat pyfloat

text \<open>
  \<open>max(q, 1)\<close> for a float \<open>q\<close>: the built-in keeps its first argument unless the
  second compares greater, so the result is the \<open>int\<close> 1 when \<open>1 > q\<close> and \<open>q\<close> itself
  otherwise, also when \<open>q\<close> is NaN.
\<close>

definition max1 :: "pyfloat \<Rightarrow> pynum" where
  "max1 q = (if (case q of Finite x \<Rightarrow> x < 1 | NInf \<Rightarrow> True | _ \<Rightarrow> False) then PyInt 1 else PyFloat q)"

text \<open>
  \<open>w / a\<close> for an \<open>int\<close> \<open>w\<close>: the division of two integers is the correctly rounded
  quotient, with \<open>OverflowError\<close> when it is not finite; with a float divisor \<open>w\<close> is
  converted first.
\<close>

fun int_truediv :: "int \<Rightarrow> pynum \<Rightarrow> error + pyfloat" where
  "int_truediv w (PyInt b) =
     (if b = 0 then Inl ZeroDivisionError
      else (case fl (of_int w / of_int b) of Finite r \<Rightarrow> Inr (Finite r) | _ \<Rightarrow> Inl OverflowError))"
| "int_truediv w (PyFloat b) =
     (case to_float w of Inl e \<Rightarrow> Inl e | Inr a \<Rightarrow> truediv a b)"

text \<open>\<open>s * a\<close> for a number \<open>s\<close> and a float \<open>a\<close>; an \<open>int\<close> is converted first.\<close>

fun num_times :: "pynum \<Rightarrow> pyfloat \<Rightarrow> error + pyfloat" where
  "num_times (PyInt n) a = (case to_float n of Inl e \<Rightarrow> Inl e | Inr s \<Rightarrow> Inr (fmul s a))"
| "num_times (PyFloat s) a = Inr (fmul s a)"

text \<open>The exponent of the binade that fixes the spacing.\<close>

definition expo :: "real \<Rightarrow> int" where
  "expo x = max (binade x) (- 1022)"

subsection \<open>Strings\<close>

text \<open>\<open>str.isspace\<close> on one code point: the characters removed by \<open>str.strip()\<close>.\<close>

definition isspace :: "nat \<Rightarrow> bool" where
  "isspace c \<longleftrightarrow>
     (9 \<le> c \<and> c \<le> 13) \<or> (28 \<le> c \<and> c \<le> 32) \<or> c = 133 \<or> c = 160 \<or> c = 5760 \<or>
     (8192 \<le> c \<and> c \<le> 8202) \<or> c = 8232 \<or> c = 8233 \<or> c = 8239 \<or> c = 8287 \<or> c = 12288"

definition strip :: "pystr \<Rightarrow> pystr" where
  "strip s = rev (dropWhile isspace (rev (dropWhile isspace s)))"

text \<open>\<open>text.split("\n")\<close>: the pieces between newlines; never the empty list.\<close>

fun split_nl :: "pystr \<Rightarrow> pystr list" where
  "split_nl [] = [[]]"
| "split_nl (c # cs) =
     (if c = 10 then [] # split_nl cs
      else (case split_nl cs of p # ps \<Rightarrow> (c # p) # ps | [] \<Rightarrow> [[c]]))"

section \<open>textwrap.wrap with its default options\<close>

text \<open>
  The scripts call \<open>textwrap.wrap(para, width=cols)\<close>, that is a \<open>TextWrapper\<close> with
  \<open>expand_tabs\<close>, \<open>replace_whitespace\<close>, \<open>drop_whitespace\<close>, \<open>break_long_words\<close> and
  \<open>break_on_hyphens\<close> on, \<open>tabsize = 8\<close>, empty indents, \<open>fix_sentence_endings\<close> off
  and no \<open>max_lines\<close>.  The model follows CPython's \<open>textwrap.py\<close> under these options.
\<close>

text \<open>\<open>textwrap._whitespace\<close>, the string \<open>\t\n\x0b\x0c\r\<close> and the blank.\<close>

definition is_ws :: "nat \<Rightarrow> bool" where
  "is_ws c \<longleftrightarrow> c = 9 \<or> c = 10 \<or> c = 11 \<or> c = 12 \<or> c = 13 \<or> c = 32"

text \<open>\<open>str.expandtabs(8)\<close>; the column restarts after a newline or carriage return.\<close>

fun expandtabs :: "nat \<Rightarrow> pystr \<Rightarrow> pystr" where
  "expandtabs col [] = []"
| "expandtabs col (c # cs) =
     (if c = 9 then replicate (8 - col mod 8) 32 @ expandtabs (col + (8 - col mod 8)) cs
      else if c = 10 \<or> c = 13 then c # expandtabs 0 cs
      else c # expandtabs (col + 1) cs)"

definition munge_whitespace :: "pystr \<Rightarrow> pystr" where
  "munge_whitespace text = map (\<lambda>c. if is_ws c then 32 else c) (expandtabs 0 text)"

text \<open>
  The character classes of \<open>wordsep_re\<close> depend on the Unicode character database,
  which is a parameter of the model: \<open>isalnum\<close> is \<open>str.isalnum\<close> and \<open>isdecimal\<close> is
  \<open>str.isdecimal\<close> on one code point.  \<open>\w\<close> is an alphanumeric or the underscore,
  \<open>letter\<close> is \<open>[^\d\W]\<close>, \<open>word_punct\<close> is \<open>[\w!"'&.,?]\<close>.  The hyphen is code
  point 45; Unicode does not class it as alphanumeric.
\<close>

record ucd =
  isalnum :: "nat \<Rightarrow> bool"
  isdecimal :: "nat \<Rightarrow> bool"

definition re_w :: "ucd \<Rightarrow> nat \<Rightarrow> bool" where
  "re_w u c \<longleftrightarrow> isalnum u c \<or> c = 95"

definition letter :: "ucd \<Rightarrow> nat \<Rightarrow> bool" where
  "letter u c \<longleftrightarrow> re_w u c \<and> \<not> isdecimal u c"

definition word_punct :: "ucd \<Rightarrow> nat \<Rightarrow> bool" where
  "word_punct u c \<longleftrightarrow>
     re_w u c \<or> c = 33 \<or> c = 34 \<or> c = 39 \<or> c = 38 \<or> c = 46 \<or> c = 44 \<or> c = 63"

text \<open>
  Positions in the text are pairs of the reversed text before the position (for the
  look-behinds) and the text from the position on.

  \<open>-{2,} (?=\w)\<close> at a position: the length of the run of hyphens, when it has at
  least two hyphens and a word character follows it.
\<close>

definition dashes_word :: "ucd \<Rightarrow> pystr \<Rightarrow> nat option" where
  "dashes_word u rest =
     (let n = length (takeWhile (\<lambda>c. c = 45) rest)
      in if 2 \<le> n \<and> (case drop n rest of c # _ \<Rightarrow> re_w u c | [] \<Rightarrow> False)
         then Some n else None)"

text \<open>The second alternative: \<open>(?<=word_punct) -{2,} (?=\w)\<close>.\<close>

definition em_dash :: "ucd \<Rightarrow> pystr \<Rightarrow> pystr \<Rightarrow> nat option" where
  "em_dash u prev rest =
     (case prev of p # _ \<Rightarrow> if word_punct u p then dashes_word u rest else None
      | [] \<Rightarrow> None)"

text \<open>
  The hyphen of a hyphenated word, \<open>-(?: (?<=lt{2}-) | (?<=lt-lt-)) (?= lt -? lt)\<close>:
  \<open>prev\<close> is the reversed text before the hyphen, \<open>cs\<close> the text after it.
\<close>

definition hyphen_behind :: "ucd \<Rightarrow> pystr \<Rightarrow> bool" where
  "hyphen_behind u prev =
     (case prev of
        p1 # p2 # ps \<Rightarrow>
          (letter u p1 \<and> letter u p2) \<or>
          (letter u p1 \<and> p2 = 45 \<and> (case ps of p3 # _ \<Rightarrow> letter u p3 | [] \<Rightarrow> False))
      | _ \<Rightarrow> False)"

definition hyphen_ahead :: "ucd \<Rightarrow> pystr \<Rightarrow> bool" where
  "hyphen_ahead u cs =
     (case cs of
        c1 # c2 # cs' \<Rightarrow>
          letter u c1 \<and>
          ((c2 = 45 \<and> (case cs' of c3 # _ \<Rightarrow> letter u c3 | [] \<Rightarrow> False)) \<or> letter u c2)
      | _ \<Rightarrow> False)"

text \<open>
  The third alternative after its first character: the lazy \<open>[^ws]+?\<close> stops at the
  first position where one of its three endings matches, tried in the order of the
  pattern.  \<open>acc\<close> is the reversed chunk so far; the result is the chunk and the
  text after it.
\<close>

fun scan_word :: "ucd \<Rightarrow> pystr \<Rightarrow> pystr \<Rightarrow> pystr \<Rightarrow> pystr \<times> pystr" where
  "scan_word u prev acc [] = (rev acc, [])"
| "scan_word u prev acc (c # cs) =
     (if c = 45 \<and> hyphen_behind u prev \<and> hyphen_ahead u cs then (rev (c # acc), cs)
      else if is_ws c then (rev acc, c # cs)
      else if (case prev of p # _ \<Rightarrow> word_punct u p | [] \<Rightarrow> False) \<and>
              dashes_word u (c # cs) \<noteq> None then (rev acc, c # cs)
      else scan_word u (c # prev) (c # acc) cs)"

text \<open>One match of \<open>wordsep_re\<close> at a position with text left: the chunk and the rest.\<close>

definition next_chunk :: "ucd \<Rightarrow> pystr \<Rightarrow> nat \<Rightarrow> pystr \<Rightarrow> pystr \<times> pystr" where
  "next_chunk u prev c cs =
     (if is_ws c then (takeWhile is_ws (c # cs), dropWhile is_ws (c # cs))
      else (case em_dash u prev (c # cs) of
              Some n \<Rightarrow> (take n (c # cs), drop n (c # cs))
            | None \<Rightarrow> scan_word u (c # prev) [c] cs))"

lemma scan_word_length: "length (snd (scan_word u prev acc cs)) \<le> length cs"
proof (induction cs arbitrary: prev acc)
  case Nil
  show ?case by simp
next
  case (Cons c cs)
  have "length (snd (scan_word u (c # prev) (c # acc) cs)) \<le> Suc (length cs)"
    using Cons.IH [of "c # prev" "c # acc"] by simp
  then show ?case by simp
qed

lemma next_chunk_length: "length (snd (next_chunk u prev c cs)) \<le> length cs"
proof (cases "is_ws c")
  case True
  then show ?thesis
    by (simp add: next_chunk_def le_SucI length_dropWhile_le)
next
  case False
  show ?thesis
  proof (cases "em_dash u prev (c # cs)")
    case None
    with False show ?thesis by (simp add: next_chunk_def scan_word_length)
  next
    case (Some n)
    then have "2 \<le> n"
      by (auto simp: em_dash_def dashes_word_def Let_def split: list.splits if_splits)
    with False Some show ?thesis by (cases n) (simp_all add: next_chunk_def)
  qed
qed

text \<open>
  \<open>_split\<close>: \<open>wordsep_re.split(text)\<close> without the empty strings.  The pattern matches
  at every position of a non-empty rest, so the chunks are the successive matches.
\<close>

function tw_split :: "ucd \<Rightarrow> pystr \<Rightarrow> pystr \<Rightarrow> pystr list" where
  "tw_split u prev [] = []"
| "tw_split u prev (c # cs) =
     (case next_chunk u prev c cs of
        (chunk, rest) \<Rightarrow> chunk # tw_split u (rev chunk @ prev) rest)"
  by pat_completeness auto
termination
  apply (relation "measure (\<lambda>(u, prev, rest). length rest)")
   apply simp
  subgoal for u prev c cs
    using next_chunk_length [of u prev c cs] by (metis le_imp_less_Suc length_Cons in_measure old.prod.case snd_conv)
  done

definition split_chunks :: "ucd \<Rightarrow> pystr \<Rightarrow> pystr list" where
  "split_chunks u text = tw_split u [] (munge_whitespace text)"

text \<open>
  \<open>_wrap_chunks\<close>.  The source reverses the chunks and pops from the end; the model
  keeps them in text order and takes from the front.  The inner \<open>while\<close> loop puts
  chunks on the current line as long as they fit.
\<close>

fun fill_line :: "nat \<Rightarrow> pystr list \<Rightarrow> pystr list \<Rightarrow> nat \<Rightarrow> pystr list \<times> nat \<times> pystr list" where
  "fill_line width [] cur_line cur_len = (cur_line, cur_len, [])"
| "fill_line width (c # chunks) cur_line cur_len =
     (if cur_len + length c \<le> width
      then fill_line width chunks (cur_line @ [c]) (cur_len + length c)
      else (cur_line, cur_len, c # chunks))"

text \<open>\<open>s.rfind(ch, 0, end)\<close>: the highest index below \<open>end\<close> that holds \<open>ch\<close>, or \<open>-1\<close>.\<close>

fun rfind :: "nat \<Rightarrow> pystr \<Rightarrow> nat \<Rightarrow> int" where
  "rfind ch s 0 = - 1"
| "rfind ch s (Suc i) = (if i < length s \<and> s ! i = ch then int i else rfind ch s i)"

text \<open>
  \<open>_handle_long_word\<close> with \<open>break_long_words\<close> and \<open>break_on_hyphens\<close>: the front of
  the next chunk, as much as fits or up to its last hyphen that fits, goes on the
  current line.  It is only called with a chunk left.
\<close>

definition space_left :: "nat \<Rightarrow> nat \<Rightarrow> nat" where
  "space_left width cur_len = (if width < 1 then 1 else width - cur_len)"

definition long_word_end :: "pystr \<Rightarrow> nat \<Rightarrow> nat" where
  "long_word_end chunk space =
     (let hyphen = rfind 45 chunk space
      in if length chunk > space \<and> hyphen > 0 \<and>
            (\<exists>c \<in> set (take (nat hyphen) chunk). c \<noteq> 45)
         then nat hyphen + 1 else space)"

fun handle_long_word :: "pystr list \<Rightarrow> pystr list \<Rightarrow> nat \<Rightarrow> nat \<Rightarrow> pystr list \<times> pystr list" where
  "handle_long_word [] cur_line cur_len width = (cur_line, [])"
| "handle_long_word (chunk # chunks) cur_line cur_len width =
     (let end = long_word_end chunk (space_left width cur_len)
      in (cur_line @ [take end chunk], drop end chunk # chunks))"

text \<open>
  One pass of the outer \<open>while\<close> loop: the current line, as its list of chunks, and the
  chunks left.  \<open>has_lines\<close> is the test \<open>lines\<close> of the source, true once a line has
  been stored.
\<close>

definition drop_leading :: "bool \<Rightarrow> pystr list \<Rightarrow> pystr list" where
  "drop_leading has_lines chunks =
     (case chunks of
        c # cs \<Rightarrow> if strip c = [] \<and> has_lines then cs else chunks
      | [] \<Rightarrow> [])"

definition drop_trailing :: "pystr list \<Rightarrow> pystr list" where
  "drop_trailing cur_line =
     (if cur_line \<noteq> [] \<and> strip (last cur_line) = [] then butlast cur_line else cur_line)"

definition wrap_step :: "nat \<Rightarrow> bool \<Rightarrow> pystr list \<Rightarrow> pystr list \<times> pystr list" where
  "wrap_step width has_lines chunks =
     (case fill_line width (drop_leading has_lines chunks) [] 0 of
        (cur_line, cur_len, chunks') \<Rightarrow>
          (case (if chunks' \<noteq> [] \<and> length (hd chunks') > width
                 then handle_long_word chunks' cur_line cur_len width
                 else (cur_line, chunks')) of
             (cur_line', chunks'') \<Rightarrow> (drop_trailing cur_line', chunks'')))"

text \<open>The size of the work left: the characters and the chunks.\<close>

definition work :: "pystr list \<Rightarrow> nat" where
  "work chunks = sum_list (map (\<lambda>c. Suc (length c)) chunks)"

lemma work_Cons: "work (c # cs) = Suc (length c) + work cs"
  by (simp add: work_def)

lemma fill_line_work:
  assumes "fill_line width chunks cur_line cur_len = (cur_line', cur_len', chunks')"
  shows "(chunks' = chunks \<and> cur_len' = cur_len \<and> cur_line' = cur_line) \<or> work chunks' < work chunks"
  using assms
proof (induction chunks arbitrary: cur_line cur_len)
  case Nil
  then show ?case by simp
next
  case (Cons c chunks)
  show ?case
  proof (cases "cur_len + length c \<le> width")
    case True
    with Cons.prems
    have "fill_line width chunks (cur_line @ [c]) (cur_len + length c) = (cur_line', cur_len', chunks')"
      by simp
    from Cons.IH [OF this] show ?thesis by (auto simp: work_Cons)
  next
    case False
    with Cons.prems show ?thesis by simp
  qed
qed

lemma fill_line_full:
  assumes "fill_line width chunks cur_line cur_len = (cur_line', cur_len', c # chunks')"
  shows "width < cur_len' + length c"
  using assms
  by (induction chunks arbitrary: cur_line cur_len) (auto split: if_splits)

lemma drop_leading_work: "work (drop_leading has_lines chunks) \<le> work chunks"
  by (auto simp: drop_leading_def work_Cons split: list.splits)



lemma long_word_end_pos: "0 < space \<Longrightarrow> 0 < long_word_end chunk space"
  by (auto simp: long_word_end_def Let_def)

lemma handle_long_word_work:
  "work (snd (handle_long_word chunks cur_line cur_len width)) \<le> work chunks"
  by (cases chunks) (simp_all add: work_Cons Let_def)

lemma handle_long_word_progress:
  assumes "width < length c"
  shows "work (snd (handle_long_word (c # cs) cur_line 0 width)) < work (c # cs)"
proof -
  have "0 < length c" using assms by (cases c) simp_all
  moreover have "0 < long_word_end c (space_left width 0)"
    by (rule long_word_end_pos) (simp add: space_left_def)
  ultimately show ?thesis
    by (simp add: work_Cons Let_def)
qed

lemma wrap_step_work:
  assumes "chunks \<noteq> []"
  shows "work (snd (wrap_step width has_lines chunks)) < work chunks"
proof -
  obtain cur_line cur_len chunks' where
    fl: "fill_line width (drop_leading has_lines chunks) [] 0 = (cur_line, cur_len, chunks')"
    by (metis prod_cases3)
  have pos: "0 < work chunks" using assms by (cases chunks) (simp_all add: work_Cons)
  show ?thesis
  proof (cases chunks')
    case Nil
    with fl pos show ?thesis by (simp add: wrap_step_def work_def)
  next
    case (Cons d ds)
    from fill_line_work [OF fl]
    consider (same) "chunks' = drop_leading has_lines chunks" "cur_len = 0"
      | (less) "work chunks' < work (drop_leading has_lines chunks)" by auto
    then show ?thesis
    proof cases
      case same
      from fill_line_full [OF fl [unfolded Cons]] same have long: "width < length d" by simp
      have "work (snd (handle_long_word (d # ds) cur_line 0 width)) < work (d # ds)"
        by (rule handle_long_word_progress [OF long])
      moreover have "work (d # ds) \<le> work chunks"
        using same Cons drop_leading_work [of has_lines chunks] by simp
      ultimately show ?thesis
        using fl Cons same long by (auto simp: wrap_step_def split: prod.splits simp del: handle_long_word.simps)
    next
      case less
      have "work (snd (handle_long_word chunks' cur_line cur_len width)) \<le> work chunks'"
        by (rule handle_long_word_work)
      with less drop_leading_work [of has_lines chunks] fl show ?thesis
        by (auto simp: wrap_step_def split: prod.splits simp del: handle_long_word.simps)
    qed
  qed
qed

text \<open>The outer loop; \<open>lines\<close> collects the stored lines.\<close>

function wrap_loop :: "nat \<Rightarrow> pystr list \<Rightarrow> pystr list \<Rightarrow> pystr list" where
  "wrap_loop width [] lines = lines"
| "wrap_loop width (c # cs) lines =
     (case wrap_step width (lines \<noteq> []) (c # cs) of
        (cur_line, chunks') \<Rightarrow>
          wrap_loop width chunks' (if cur_line \<noteq> [] then lines @ [concat cur_line] else lines))"
  by pat_completeness auto
termination
  apply (relation "measure (\<lambda>(width, chunks, lines). work chunks)")
   apply simp
  subgoal for width c cs lines
    using wrap_step_work [of "c # cs" width "lines \<noteq> []"] by (metis in_measure list.distinct(1) old.prod.case snd_conv)
  done

text \<open>\<open>_wrap_chunks\<close> refuses a width below 1; \<open>wrap\<close> splits and wraps.\<close>

definition wrap_chunks :: "int \<Rightarrow> pystr list \<Rightarrow> error + pystr list" where
  "wrap_chunks width chunks =
     (if width \<le> 0 then Inl ValueError else Inr (wrap_loop (nat width) chunks []))"

definition wrap :: "ucd \<Rightarrow> pystr \<Rightarrow> int \<Rightarrow> error + pystr list" where
  "wrap u text width = wrap_chunks width (split_chunks u text)"

section \<open>The text layout engine: draw\_wrapped\<close>

text \<open>
  A font is what \<open>draw_wrapped\<close> reads of an \<open>ImageFont\<close>: its \<open>size\<close>, an \<open>int\<close> or a
  \<open>float\<close>, and its \<open>getlength\<close>, which returns a float (a length that is an \<open>int\<close> is
  converted by the division by \<open>52.0\<close>, and is modelled by the converted value).  The \<open>ImageDraw\<close> object is
  modelled by the list of \<open>draw.text\<close> calls made on it, each with its position, its
  string and its fill colour.
\<close>

record font =
  font_size :: pynum
  getlength :: "pystr \<Rightarrow> pyfloat"

type_synonym color = "int \<times> int \<times> int"

record text_op =
  xy :: "int \<times> int"
  op_text :: pystr
  fill :: color

type_synonym draw = "text_op list"

definition alphabet :: pystr where
  "alphabet = str ''ABCDEFGHIJKLMNOPQRSTUVWXYZabcdefghijklmnopqrstuvwxyz''"

text \<open>\<open>avg = max(font.getlength(alphabet) / 52.0, 1)\<close>\<close>

definition avg :: "font \<Rightarrow> error + pynum" where
  "avg font =
     (case truediv (getlength font alphabet) (Finite 52) of
        Inl e \<Rightarrow> Inl e
      | Inr q \<Rightarrow> Inr (max1 q))"

text \<open>
  \<open>cols = max(int(max_width_px / avg), 20)\<close>.  \<open>draw_text_block\<close> of
  \<open>generate_historisch_inspiriertes_dokument.py\<close> computes its \<open>avg_char_px\<close> and
  \<open>wrap_cols\<close> by the same two expressions.
\<close>

definition cols :: "font \<Rightarrow> int \<Rightarrow> error + int" where
  "cols font max_width_px =
     (case avg font of
        Inl e \<Rightarrow> Inl e
      | Inr a \<Rightarrow>
          (case int_truediv max_width_px a of
             Inl e \<Rightarrow> Inl e
           | Inr q \<Rightarrow> (case py_int q of Inl e \<Rightarrow> Inl e | Inr n \<Rightarrow> Inr (max n 20))))"

text \<open>The step of \<open>y\<close>: \<open>int(font.size * (1.0 + line_spacing))\<close>\<close>

definition advance :: "font \<Rightarrow> pyfloat \<Rightarrow> error + int" where
  "advance font line_spacing =
     (case num_times (font_size font) (fadd (Finite 1) line_spacing) of
        Inl e \<Rightarrow> Inl e
      | Inr p \<Rightarrow> py_int p)"

text \<open>
  The inner loop over the wrapped lines of one paragraph: each pass draws the line
  and then computes the step.
\<close>

fun draw_lines ::
  "int \<Rightarrow> font \<Rightarrow> color \<Rightarrow> pyfloat \<Rightarrow> pystr list \<Rightarrow> draw \<times> int \<Rightarrow> error + draw \<times> int" where
  "draw_lines x font color line_spacing [] (draw, y) = Inr (draw, y)"
| "draw_lines x font color line_spacing (line # lines) (draw, y) =
     (case advance font line_spacing of
        Inl e \<Rightarrow> Inl e
      | Inr step \<Rightarrow>
          draw_lines x font color line_spacing lines
            (draw @ [\<lparr>xy = (x, y), op_text = line, fill = color\<rparr>], y + step))"

text \<open>The outer loop over the paragraphs; an exception leaves the loop.\<close>

fun draw_paras ::
  "ucd \<Rightarrow> int \<Rightarrow> font \<Rightarrow> color \<Rightarrow> pyfloat \<Rightarrow> int \<Rightarrow> pystr list \<Rightarrow> draw \<times> int \<Rightarrow> error + draw \<times> int" where
  "draw_paras u x font color line_spacing width [] (draw, y) = Inr (draw, y)"
| "draw_paras u x font color line_spacing width (para # paras) (draw, y) =
     (if strip para = []
      then (case advance font line_spacing of
              Inl e \<Rightarrow> Inl e
            | Inr step \<Rightarrow> draw_paras u x font color line_spacing width paras (draw, y + step))
      else (case wrap u para width of
              Inl e \<Rightarrow> Inl e
            | Inr lines \<Rightarrow>
                (case draw_lines x font color line_spacing lines (draw, y) of
                   Inl e \<Rightarrow> Inl e
                 | Inr st \<Rightarrow> draw_paras u x font color line_spacing width paras st)))"

text \<open>
  \<open>draw_wrapped\<close> of \<open>generate_altes_dokument.py\<close> and
  \<open>generate_telegramm_zusammenfassung.py\<close>; it returns the drawing surface with the
  final \<open>y\<close>.
\<close>

definition draw_wrapped ::
  "ucd \<Rightarrow> draw \<Rightarrow> int \<times> int \<Rightarrow> pystr \<Rightarrow> font \<Rightarrow> color \<Rightarrow> int \<Rightarrow> pyfloat \<Rightarrow> error + draw \<times> int" where
  "draw_wrapped u draw pos text font color max_width_px line_spacing =
     (case pos of
        (x, y) \<Rightarrow>
          (case cols font max_width_px of
             Inl e \<Rightarrow> Inl e
           | Inr c \<Rightarrow> draw_paras u x font color line_spacing c (split_nl text) (draw, y)))"

subsection \<open>Inputs for the examples\<close>

text \<open>
  The Unicode tables on the ASCII range (no code point from 128 on is alphanumeric in
  this table; the examples use none) and a fixed-pitch font of an integer size whose
  glyphs are all \<open>w\<close> pixels wide.
\<close>

definition ascii_ucd :: ucd where
  "ascii_ucd =
     \<lparr>isalnum = (\<lambda>c. (48 \<le> c \<and> c \<le> 57) \<or> (65 \<le> c \<and> c \<le> 90) \<or> (97 \<le> c \<and> c \<le> 122)),
      isdecimal = (\<lambda>c. 48 \<le> c \<and> c \<le> 57)\<rparr>"

definition mono_font :: "int \<Rightarrow> real \<Rightarrow> font" where
  "mono_font sz w = \<lparr>font_size = PyInt sz, getlength = (\<lambda>s. fl (w * real (length s)))\<rparr>"

definition ink :: color where
  "ink = (25, 20, 15)"

section \<open>The parchment texture: make\_parchment\<close>

text \<open>
  The arrays of numpy are flat lists in row-major order, their elements machine
  integers: \<open>int16\<close> for the noise and the sum, \<open>uint8\<close> for the pixels.

  numpy's bit generator (PCG64) is a parameter of the model: the state in which
  \<open>default_rng(seed)\<close> starts a generator, and one draw of
  \<open>integers(low, high, dtype=int16)\<close>, which returns the value and the next state.
  Generator objects live on a heap and are referred to by their address, so that a
  draw changes the object it is made on.
\<close>

type_synonym int16 = "16 word"
type_synonym uint8 = "8 word"

record 'g bit_generator =
  seeded :: "int \<Rightarrow> 'g"
  next_int16 :: "int \<Rightarrow> int \<Rightarrow> 'g \<Rightarrow> int16 \<times> 'g"

type_synonym 'g heap = "'g list"

text \<open>\<open>np.random.default_rng(seed)\<close> makes a new generator object.\<close>

definition default_rng :: "'g bit_generator \<Rightarrow> int \<Rightarrow> 'g heap \<Rightarrow> nat \<times> 'g heap" where
  "default_rng bg seed heap = (length heap, heap @ [seeded bg seed])"

text \<open>\<open>n\<close> draws on the generator object at address \<open>rng\<close>.\<close>

fun integers :: "'g bit_generator \<Rightarrow> nat \<Rightarrow> int \<Rightarrow> int \<Rightarrow> nat \<Rightarrow> 'g heap \<Rightarrow> int16 list \<times> 'g heap" where
  "integers bg rng low high 0 heap = ([], heap)"
| "integers bg rng low high (Suc n) heap =
     (case next_int16 bg low high (heap ! rng) of
        (v, g) \<Rightarrow>
          (case integers bg rng low high n (heap[rng := g]) of
             (vs, heap') \<Rightarrow> (v # vs, heap')))"

text \<open>
  \<open>np.random.default_rng(seed).integers(low=low, high=high, size=(height, width, 3),
  dtype=np.int16)\<close>.  \<open>default_rng\<close> refuses a negative seed.  \<open>integers\<close> first returns
  \<open>np.empty(size)\<close> when the product of the dimensions is 0, before it looks at the
  bounds; then it refuses bounds outside \<open>int16\<close> and an empty range; then it allocates
  the array, which refuses a negative dimension, as \<open>np.empty\<close> does.
\<close>

fun noise :: "'g bit_generator \<Rightarrow> int \<Rightarrow> int \<Rightarrow> int \<Rightarrow> int \<times> int \<Rightarrow> 'g heap \<Rightarrow> error + int16 list \<times> 'g heap" where
  "noise bg seed low high (width, height) heap =
     (if seed < 0 then Inl ValueError
      else (case default_rng bg seed heap of
              (rng, heap') \<Rightarrow>
                if height * width * 3 = 0
                then (if height < 0 \<or> width < 0 then Inl ValueError else Inr ([], heap'))
                else if low < - 32768 \<or> 32768 < high \<or> high \<le> low then Inl ValueError
                else if height < 0 \<or> width < 0 then Inl ValueError
                else Inr (integers bg rng low high (nat height * nat width * 3) heap')))"

text \<open>\<open>astype(np.int16)\<close> on a pixel value and \<open>astype(np.uint8)\<close> on a sum.\<close>

definition astype_int16 :: "uint8 \<Rightarrow> int16" where
  "astype_int16 b = ucast b"

definition astype_uint8 :: "int16 \<Rightarrow> uint8" where
  "astype_uint8 a = ucast a"

text \<open>\<open>np.clip(a, a_min, a_max)\<close> on \<open>int16\<close>: the minimum of \<open>a_max\<close> and the maximum of \<open>a\<close> and \<open>a_min\<close>.\<close>

definition clip :: "int16 \<Rightarrow> int16 \<Rightarrow> int16 \<Rightarrow> int16" where
  "clip a a_min a_max =
     (let m = (if a <s a_min then a_min else a) in if a_max <s m then a_max else m)"

text \<open>One element of \<open>np.clip(arr + noise, 0, 255).astype(np.uint8)\<close>; the sum is an \<open>int16\<close> sum.\<close>

definition add_noise :: "uint8 \<Rightarrow> int16 \<Rightarrow> uint8" where
  "add_noise b p = astype_uint8 (clip (astype_int16 b + p) 0 255)"

text \<open>
  \<open>make_parchment\<close> of \<open>generate_altes_dokument.py\<close> up to the array handed to
  \<open>Image.fromarray\<close>: the flat base colour, the noise of seed 7 in \<open>[-12, 12)\<close>, the
  clipped sum.  \<open>Image.new\<close> refuses a negative size.
\<close>

fun make_parchment :: "'g bit_generator \<Rightarrow> int \<times> int \<Rightarrow> 'g heap \<Rightarrow> error + uint8 list \<times> 'g heap" where
  "make_parchment bg (width, height) heap =
     (if width < 0 \<or> height < 0 then Inl ValueError
      else (case noise bg 7 (- 12) 12 (width, height) heap of
              Inl e \<Rightarrow> Inl e
            | Inr (ns, heap') \<Rightarrow>
                Inr (map2 add_noise (concat (replicate (nat height * nat width) [238, 227, 203])) ns,
                     heap')))"

section \<open>The specification's words\<close>

text \<open>
  The rows that the layout engine emits for a list of paragraphs at a column budget:
  \<open>None\<close> for a blank paragraph, \<open>Some line\<close> for each wrapped line.
\<close>

fun emitted_rows :: "ucd \<Rightarrow> nat \<Rightarrow> pystr list \<Rightarrow> pystr option list" where
  "emitted_rows u width [] = []"
| "emitted_rows u width (para # paras) =
     (if strip para = [] then [None]
      else map Some (wrap_loop width (split_chunks u para) [])) @ emitted_rows u width paras"

text \<open>
  The rows placed from \<open>(x, y)\<close> downwards, one \<open>step\<close> per row: a line is drawn at
  the cursor, a blank row draws nothing.
\<close>

fun placed :: "int \<Rightarrow> int \<Rightarrow> int \<Rightarrow> color \<Rightarrow> pystr option list \<Rightarrow> draw" where
  "placed x y step color [] = []"
| "placed x y step color (None # rows) = placed x (y + step) step color rows"
| "placed x y step color (Some line # rows) =
     \<lparr>xy = (x, y), op_text = line, fill = color\<rparr> # placed x (y + step) step color rows"

text \<open>\<open>clamp(v, lo, hi)\<close> on unbounded integers.\<close>

definition clamp :: "int \<Rightarrow> int \<Rightarrow> int \<Rightarrow> int" where
  "clamp v lo hi = max lo (min hi v)"

text \<open>
  The number of chunks that the inner loop of \<open>_wrap_chunks\<close> puts on a line of the
  given width from the front of the chunks.
\<close>

fun fit :: "nat \<Rightarrow> pystr list \<Rightarrow> nat" where
  "fit width [] = 0"
| "fit width (c # chunks) = (if length c \<le> width then Suc (fit (width - length c) chunks) else 0)"

text \<open>
  The chunks of a paragraph are regular at a width when no chunk is longer than the
  width, the first chunk is not blank to \<open>str.strip\<close>, and no two chunks that are
  blank to \<open>str.strip\<close> follow each other.
\<close>

fun spaced :: "pystr list \<Rightarrow> bool" where
  "spaced [] = True"
| "spaced [c] = True"
| "spaced (c # d # chunks) = ((strip c \<noteq> [] \<or> strip d \<noteq> []) \<and> spaced (d # chunks))"

definition regular :: "nat \<Rightarrow> pystr list \<Rightarrow> bool" where
  "regular width chunks \<longleftrightarrow>
     list_all (\<lambda>c. length c \<le> width) chunks \<and>
     (case chunks of [] \<Rightarrow> True | c # _ \<Rightarrow> strip c \<noteq> []) \<and>
     spaced chunks"

section \<open>Rounding to the nearest float\<close>

lemma ilog2_nonneg: "0 \<le> ilog2 n"
proof (induction n rule: ilog2.induct)
  case (1 n)
  show ?case
  proof (cases "n < 2")
    case True
    then show ?thesis by (simp add: ilog2.simps)
  next
    case False
    with "1.IH" have "0 \<le> ilog2 (n div 2)" by simp
    with False show ?thesis by (subst ilog2.simps) simp
  qed
qed

lemma ilog2_bounds:
  "1 \<le> n \<Longrightarrow> 2 ^ nat (ilog2 n) \<le> n \<and> n < 2 * 2 ^ nat (ilog2 n)"
proof (induction n rule: ilog2.induct)
  case (1 n)
  show ?case
  proof (cases "n < 2")
    case True
    with "1.prems" have "n = 1" by simp
    then show ?thesis by (simp add: ilog2.simps)
  next
    case False
    let ?k = "nat (ilog2 (n div 2))"
    from False have "1 \<le> n div 2" by simp
    with "1.IH" False have IH: "2 ^ ?k \<le> n div 2" "n div 2 < 2 * 2 ^ ?k" by simp_all
    have eq: "nat (ilog2 n) = Suc ?k"
      using False ilog2_nonneg [of "n div 2"] by (subst ilog2.simps) (simp add: nat_add_distrib)
    have "2 * (n div 2) \<le> n" "n < 2 * (n div 2) + 2" by simp_all
    with IH show ?thesis unfolding eq by simp
  qed
qed

lemma binade_bounds:
  assumes "x \<noteq> 0"
  shows "2 powi (binade x) \<le> \<bar>x\<bar> \<and> \<bar>x\<bar> < 2 powi (binade x + 1)"
proof (cases "1 \<le> \<bar>x\<bar>")
  case True
  let ?n = "\<lfloor>\<bar>x\<bar>\<rfloor>"
  let ?k = "ilog2 ?n"
  have n: "1 \<le> ?n" using True by simp
  from ilog2_bounds [OF n] have b: "2 ^ nat ?k \<le> ?n" "?n < 2 * 2 ^ nat ?k" by simp_all
  have k: "0 \<le> ?k" by (rule ilog2_nonneg)
  have "(2::real) ^ nat ?k \<le> of_int ?n" using b(1) by (metis of_int_le_iff of_int_numeral of_int_power)
  also have "\<dots> \<le> \<bar>x\<bar>" by simp
  finally have lo: "(2::real) ^ nat ?k \<le> \<bar>x\<bar>" .
  have "?n + 1 \<le> 2 * 2 ^ nat ?k" using b(2) by simp
  then have "of_int (?n + 1) \<le> (of_int (2 * 2 ^ nat ?k) :: real)" by (simp only: of_int_le_iff)
  moreover have "\<bar>x\<bar> < of_int (?n + 1)" by simp
  ultimately have "\<bar>x\<bar> < (of_int (2 * 2 ^ nat ?k) :: real)" by linarith
  then have hi: "\<bar>x\<bar> < 2 * 2 ^ nat ?k" by simp
  have "binade x = ?k" using True by (simp add: binade_def)
  then show ?thesis using lo hi k
    by (simp add: power_int_nonneg_exp nat_add_distrib)
next
  case False
  let ?y = "1 / \<bar>x\<bar>"
  let ?n = "\<lceil>?y\<rceil> - 1"
  let ?k = "ilog2 ?n"
  have x: "0 < \<bar>x\<bar>" "\<bar>x\<bar> < 1" using assms False by simp_all
  then have y: "1 < ?y" by simp
  then have "1 < \<lceil>?y\<rceil>" by (simp add: less_ceiling_iff)
  then have n: "1 \<le> ?n" by simp
  from ilog2_bounds [OF n] have b: "2 ^ nat ?k \<le> ?n" "?n < 2 * 2 ^ nat ?k" by simp_all
  have k: "0 \<le> ?k" by (rule ilog2_nonneg)
  have "of_int ?n < ?y" by (metis less_ceiling_iff zle_diff1_eq order_refl)
  moreover have "(2::real) ^ nat ?k \<le> of_int ?n"
    using b(1) by (metis of_int_le_iff of_int_numeral of_int_power)
  ultimately have lo: "(2::real) ^ nat ?k < ?y" by simp
  have "?n + 1 \<le> 2 * 2 ^ nat ?k" using b(2) by simp
  then have "of_int (?n + 1) \<le> (of_int (2 * 2 ^ nat ?k) :: real)" by (simp only: of_int_le_iff)
  moreover have "?y \<le> of_int (?n + 1)" by (simp add: le_of_int_ceiling)
  ultimately have "?y \<le> (of_int (2 * 2 ^ nat ?k) :: real)" by linarith
  then have hi: "?y \<le> 2 * 2 ^ nat ?k" by simp
  have bin: "binade x = - (?k + 1)" using False assms by (simp add: binade_def)
  have kk: "2 powi (?k + 1) = (2 * 2 ^ nat ?k :: real)" "2 powi ?k = (2 ^ nat ?k :: real)"
    using k by (simp_all add: power_int_nonneg_exp nat_add_distrib)
  have p1: "2 powi (- (?k + 1)) = 1 / (2 * 2 ^ nat ?k :: real)"
    by (simp only: power_int_minus_divide kk)
  have "- (?k + 1) + 1 = - ?k" by simp
  then have p2: "2 powi (- (?k + 1) + 1) = 1 / (2 ^ nat ?k :: real)"
    by (simp only: power_int_minus_divide kk)
  have "1 / (2 * 2 ^ nat ?k) \<le> \<bar>x\<bar>"
    using hi x(1) by (simp add: field_simps)
  moreover have "\<bar>x\<bar> < 1 / 2 ^ nat ?k"
    using lo x(1) by (simp add: field_simps)
  ultimately show ?thesis unfolding bin p1 p2 by simp
qed

lemma binade_unique:
  assumes "2 powi e \<le> \<bar>x\<bar>" "\<bar>x\<bar> < 2 powi (e + 1)"
  shows "binade x = e"
proof -
  have "0 < (2::real) powi e" by simp
  with assms(1) have "0 < \<bar>x\<bar>" by linarith
  then have x: "x \<noteq> 0" by simp
  from binade_bounds [OF x] have b: "2 powi (binade x) \<le> \<bar>x\<bar>" "\<bar>x\<bar> < 2 powi (binade x + 1)"
    by simp_all
  have "\<not> binade x < e"
  proof
    assume "binade x < e"
    then have "(2::real) powi (binade x + 1) \<le> 2 powi e" by (intro power_int_increasing) simp_all
    with b(2) assms(1) show False by simp
  qed
  moreover have "\<not> e < binade x"
  proof
    assume "e < binade x"
    then have "(2::real) powi (e + 1) \<le> 2 powi (binade x)" by (intro power_int_increasing) simp_all
    with b(1) assms(2) show False by simp
  qed
  ultimately show ?thesis by simp
qed

lemma binade_minus: "binade (- x) = binade x"
  by (simp add: binade_def)

lemma binade_mono:
  assumes "0 < x" "x \<le> y"
  shows "binade x \<le> binade y"
proof (rule ccontr)
  assume "\<not> binade x \<le> binade y"
  then have "(2::real) powi (binade y + 1) \<le> 2 powi (binade x)"
    by (intro power_int_increasing) simp_all
  moreover from binade_bounds [of x] assms have "2 powi (binade x) \<le> x" by simp
  moreover from binade_bounds [of y] assms have "y < 2 powi (binade y + 1)" by simp
  ultimately show False using assms by simp
qed

lemma round_even_of_int: "round_even (of_int n) = n"
  by (simp add: round_even_def)

lemma round_even_floor: "\<lfloor>x\<rfloor> \<le> round_even x \<and> round_even x \<le> \<lfloor>x\<rfloor> + 1"
  by (simp add: round_even_def)

lemma round_even_mono:
  assumes "x \<le> y"
  shows "round_even x \<le> round_even y"
proof (cases "\<lfloor>x\<rfloor> = \<lfloor>y\<rfloor>")
  case True
  with assms show ?thesis by (auto simp: round_even_def)
next
  case False
  with assms have "\<lfloor>x\<rfloor> < \<lfloor>y\<rfloor>" using floor_mono [OF assms] by simp
  then have "\<lfloor>x\<rfloor> + 1 \<le> \<lfloor>y\<rfloor>" by simp
  with round_even_floor [of x] round_even_floor [of y] show ?thesis by linarith
qed

lemma round_even_minus: "round_even (- x) = - round_even x"
proof (cases "x = of_int \<lfloor>x\<rfloor>")
  case True
  then obtain n where "x = of_int n" ..
  then show ?thesis by (simp add: round_even_def)
next
  case False
  then have c: "\<lceil>x\<rceil> = \<lfloor>x\<rfloor> + 1" by (simp add: ceiling_altdef)
  have f: "\<lfloor>- x\<rfloor> = - \<lfloor>x\<rfloor> - 1" by (simp add: floor_minus c)
  show ?thesis unfolding round_even_def f by (auto simp: algebra_simps)
qed

lemma quantum_pos: "0 < quantum x"
  by (simp add: quantum_def)

lemma quantum_minus: "quantum (- x) = quantum x"
  by (simp add: quantum_def binade_minus)

lemma rnd_minus: "rnd (- x) = - rnd x"
  by (simp add: rnd_def quantum_minus round_even_minus)

lemma rnd_0: "rnd 0 = 0"
  by (simp add: rnd_def round_even_def)

lemma rnd_nonneg:
  assumes "0 \<le> x"
  shows "0 \<le> rnd x"
proof -
  have "0 \<le> x / quantum x" using assms quantum_pos [of x] by simp
  from round_even_mono [OF this] have "0 \<le> round_even (x / quantum x)"
    by (simp add: round_even_def)
  then show ?thesis using quantum_pos [of x] by (simp add: rnd_def)
qed

lemma quantum_expo: "quantum x = 2 powi (expo x - 52)"
  by (simp add: quantum_def expo_def)

lemma pow2_split: "(2::real) powi (a + b) = 2 powi a * 2 powi b"
  by (simp add: power_int_add)

lemma rnd_upper:
  assumes "0 < x"
  shows "rnd x \<le> 2 powi (expo x + 1)"
proof -
  let ?q = "quantum x"
  have "x < 2 powi (binade x + 1)" using binade_bounds [of x] assms by simp
  also have "\<dots> \<le> 2 powi (expo x + 1)"
    by (intro power_int_increasing) (simp_all add: expo_def)
  finally have x: "x \<le> 2 powi (expo x + 1)" by simp
  have "expo x + 1 = 53 + (expo x - 52)" by simp
  then have "(2::real) powi (expo x + 1) = 2 powi (53 + (expo x - 52))" by (rule arg_cong)
  then have split: "(2::real) powi (expo x + 1) = 2 powi 53 * ?q"
    by (simp only: pow2_split quantum_expo)
  have "x \<le> 2 powi 53 * ?q" using x by (simp only: split)
  then have "x / ?q \<le> 2 powi 53" using quantum_pos [of x] by (simp only: pos_divide_le_eq)
  then have "x / ?q \<le> of_int (2 ^ 53)" by simp
  from round_even_mono [OF this] have "round_even (x / ?q) \<le> 2 ^ 53"
    by (simp only: round_even_of_int)
  then have "of_int (round_even (x / ?q)) \<le> (2 powi 53 :: real)"
    by (metis of_int_le_iff of_int_numeral of_int_power power_int_numeral)
  then have "of_int (round_even (x / ?q)) * ?q \<le> 2 powi 53 * ?q"
    using quantum_pos [of x] by (simp only: mult_le_cancel_right_pos)
  then show ?thesis by (simp only: rnd_def split)
qed

lemma rnd_lower:
  assumes "0 < x" "- 1022 \<le> binade x"
  shows "2 powi (expo x) \<le> rnd x"
proof -
  let ?q = "quantum x"
  have e: "expo x = binade x" using assms(2) by (simp add: expo_def)
  have x: "2 powi (expo x) \<le> x" using binade_bounds [of x] assms(1) by (simp add: e)
  have split: "(2::real) powi (expo x) = 2 powi 52 * ?q"
    using pow2_split [of 52 "expo x - 52"] by (simp add: quantum_expo)
  have "2 powi 52 * ?q \<le> x" using x by (simp only: split)
  then have "2 powi 52 \<le> x / ?q" using quantum_pos [of x] by (simp only: pos_le_divide_eq)
  then have "of_int (2 ^ 52) \<le> x / ?q" by simp
  from round_even_mono [OF this] have "2 ^ 52 \<le> round_even (x / ?q)"
    by (simp only: round_even_of_int)
  then have "(2 powi 52 :: real) \<le> of_int (round_even (x / ?q))"
    by (metis of_int_le_iff of_int_numeral of_int_power power_int_numeral)
  then have "2 powi 52 * ?q \<le> of_int (round_even (x / ?q)) * ?q"
    using quantum_pos [of x] by (simp only: mult_le_cancel_right_pos)
  then show ?thesis by (simp only: rnd_def split)
qed

lemma rnd_mono_pos:
  assumes "0 < x" "x \<le> y"
  shows "rnd x \<le> rnd y"
proof -
  have y: "0 < y" using assms by simp
  have le: "expo x \<le> expo y" using binade_mono [OF assms] by (simp add: expo_def)
  show ?thesis
  proof (cases "expo x = expo y")
    case True
    then have q: "quantum y = quantum x" by (simp add: quantum_expo)
    have "x / quantum x \<le> y / quantum x" using assms(2) quantum_pos [of x] by (simp add: divide_right_mono)
    from round_even_mono [OF this] show ?thesis
      using quantum_pos [of x] by (simp add: rnd_def q)
  next
    case False
    with le have less: "expo x + 1 \<le> expo y" by simp
    then have "- 1022 \<le> binade y" by (auto simp: expo_def)
    from rnd_lower [OF y this] have "2 powi (expo y) \<le> rnd y" .
    moreover have "(2::real) powi (expo x + 1) \<le> 2 powi (expo y)"
      using less by (intro power_int_increasing) simp_all
    moreover note rnd_upper [OF assms(1)]
    ultimately show ?thesis by linarith
  qed
qed

lemma rnd_mono:
  assumes "x \<le> y"
  shows "rnd x \<le> rnd y"
proof -
  consider "0 < x" | "x \<le> 0" "0 \<le> y" | "y < 0" by linarith
  then show ?thesis
  proof cases
    case 1
    then show ?thesis using assms by (rule rnd_mono_pos)
  next
    case 2
    have "rnd x \<le> 0" using rnd_nonneg [of "- x"] 2(1) by (simp add: rnd_minus)
    with rnd_nonneg [OF 2(2)] show ?thesis by simp
  next
    case 3
    have "rnd (- y) \<le> rnd (- x)" by (rule rnd_mono_pos) (use 3 assms in simp_all)
    then show ?thesis by (simp add: rnd_minus)
  qed
qed

lemma rnd_pow2:
  assumes "- 1074 \<le> k"
  shows "rnd (2 powi k) = 2 powi k"
proof -
  let ?x = "(2::real) powi k"
  have b: "binade ?x = k" by (rule binade_unique) (simp_all add: power_int_add)
  let ?d = "k - expo ?x + 52"
  have d: "0 \<le> ?d" using assms by (simp add: expo_def b)
  have "?x = 2 powi ?d * quantum ?x"
    using pow2_split [of ?d "expo ?x - 52"] by (simp add: quantum_expo)
  then have "?x / quantum ?x = 2 powi ?d" using quantum_pos [of ?x] by (simp add: field_simps)
  also have "\<dots> = of_int (2 ^ nat ?d)" using d by (simp add: power_int_nonneg_exp)
  finally have "round_even (?x / quantum ?x) = 2 ^ nat ?d" by (simp only: round_even_of_int)
  then have "rnd ?x = 2 powi ?d * quantum ?x"
    using d by (simp add: rnd_def power_int_nonneg_exp)
  also have "\<dots> = ?x" using pow2_split [of ?d "expo ?x - 52"] by (simp add: quantum_expo)
  finally show ?thesis .
qed

lemma rnd_bound:
  assumes "\<bar>x\<bar> \<le> 2 powi k" "- 1074 \<le> k"
  shows "\<bar>rnd x\<bar> \<le> 2 powi k"
proof -
  have "rnd x \<le> rnd (2 powi k)" by (rule rnd_mono) (use assms(1) in simp)
  moreover have "rnd (- (2 powi k)) \<le> rnd x" by (rule rnd_mono) (use assms(1) in simp)
  ultimately show ?thesis by (simp add: rnd_pow2 [OF assms(2)] rnd_minus)
qed

lemma fl_finite:
  assumes "\<bar>x\<bar> \<le> 2 ^ 1023"
  shows "fl x = Finite (rnd x) \<and> \<bar>rnd x\<bar> \<le> 2 ^ 1023"
proof -
  have "\<bar>rnd x\<bar> \<le> 2 powi 1023" by (rule rnd_bound) (use assms in simp_all)
  then have b: "\<bar>rnd x\<bar> \<le> 2 ^ 1023" by simp
  have "(2::real) ^ 1023 < 2 ^ 1024" by simp
  with b have "rnd x < 2 ^ 1024" "- (2 ^ 1024) < rnd x" by linarith+
  with b show ?thesis by (simp add: fl_def)
qed

text \<open>Rounding a float again does not change it.\<close>

lemma rnd_idem_pos:
  assumes "0 < x"
  shows "rnd (rnd x) = rnd x"
proof -
  let ?q = "quantum x"
  let ?n = "round_even (x / ?q)"
  let ?r = "rnd x"
  have r: "?r = of_int ?n * ?q" by (simp only: rnd_def)
  have nn: "0 \<le> ?r" using rnd_nonneg [of x] assms by simp
  have e: "- 1022 \<le> expo x" by (simp add: expo_def)
  consider "?r = 0" | "?r = 2 powi (expo x + 1)" | "0 < ?r" "?r < 2 powi (expo x + 1)"
    using nn rnd_upper [OF assms] by linarith
  then show ?thesis
  proof cases
    case 1
    then show ?thesis by (simp add: rnd_0)
  next
    case 2
    have "rnd (2 powi (expo x + 1)) = 2 powi (expo x + 1)"
      by (rule rnd_pow2) (use e in simp)
    then show ?thesis by (simp only: 2)
  next
    case 3
    have ex: "expo ?r = expo x"
    proof (cases "- 1022 \<le> binade x")
      case True
      from rnd_lower [OF assms True] have "2 powi (expo x) \<le> \<bar>?r\<bar>" using 3(1) by simp
      moreover have "\<bar>?r\<bar> < 2 powi (expo x + 1)" using 3 by simp
      ultimately have "binade ?r = expo x" by (rule binade_unique)
      then show ?thesis using e by (simp add: expo_def [of "rnd x"])
    next
      case False
      then have ex: "expo x = - 1022" by (simp add: expo_def)
      have "?r \<noteq> 0" using 3(1) by simp
      from binade_bounds [OF this] have "2 powi (binade ?r) \<le> ?r" using 3(1) by simp
      also have "\<dots> < 2 powi (expo x + 1)" by (rule 3(2))
      finally have lt: "(2::real) powi (binade ?r) < 2 powi (expo x + 1)" .
      have "binade ?r < expo x + 1"
      proof (rule ccontr)
        assume "\<not> binade ?r < expo x + 1"
        then have "(2::real) powi (expo x + 1) \<le> 2 powi (binade ?r)"
          by (intro power_int_increasing) simp_all
        with lt show False by simp
      qed
      then show ?thesis using ex by (simp add: expo_def [of "rnd x"])
    qed
    then have q: "quantum ?r = ?q" by (simp only: quantum_expo)
    have "?r / ?q = of_int ?n" using quantum_pos [of x] by (simp add: r)
    then have "round_even (?r / ?q) = ?n" by (simp only: round_even_of_int)
    then have "of_int (round_even (?r / quantum ?r)) * quantum ?r = of_int ?n * ?q"
      by (simp only: q)
    then show ?thesis by (simp only: rnd_def [of "rnd x"] r [symmetric])
  qed
qed

lemma rnd_idem: "rnd (rnd x) = rnd x"
proof -
  consider "0 < x" | "x = 0" | "0 < - x" by linarith
  then show ?thesis
  proof cases
    case 1
    then show ?thesis by (rule rnd_idem_pos)
  next
    case 2
    then show ?thesis by (simp add: rnd_0)
  next
    case 3
    from rnd_idem_pos [OF this] show ?thesis by (simp add: rnd_minus)
  qed
qed

section \<open>Evaluating the engine on an input\<close>

lemma length_alphabet: "length alphabet = 52"
  by (simp add: alphabet_def str_def)

lemma rfind_unfold:
  "0 < n \<Longrightarrow>
     rfind ch s n = (if n - 1 < length s \<and> s ! (n - 1) = ch then int (n - 1) else rfind ch s (n - 1))"
  by (cases n) simp_all

lemma ilog2_small: "n < 2 \<Longrightarrow> ilog2 n = 0"
  by (simp add: ilog2.simps)

lemma ilog2_large: "2 \<le> n \<Longrightarrow> ilog2 n = ilog2 (n div 2) + 1"
  by (subst ilog2.simps) simp

lemmas float_eval =
  fl_def rnd_def quantum_def binade_def round_even_def ilog2_small ilog2_large
  to_float_def max1_def

lemmas engine_eval =
  str_def split_chunks_def munge_whitespace_def is_ws_def next_chunk_def em_dash_def
  dashes_word_def hyphen_behind_def hyphen_ahead_def word_punct_def letter_def re_w_def
  ascii_ucd_def wrap_def wrap_chunks_def wrap_step_def drop_leading_def drop_trailing_def
  strip_def isspace_def space_left_def long_word_end_def Let_def rfind_unfold
  draw_wrapped_def cols_def avg_def advance_def mono_font_def length_alphabet ink_def
  float_eval

section \<open>The column budget as a float computation\<close>

lemma rnd_20: "rnd 20 = 20"
  by (simp add: float_eval)

lemma max_trunc_20: "max (if 0 \<le> r then \<lfloor>r\<rfloor> else \<lceil>r\<rceil>) 20 = max \<lfloor>r\<rfloor> 20"
proof (cases "0 \<le> r")
  case True
  then show ?thesis by simp
next
  case False
  then have "\<lceil>r\<rceil> \<le> 0" "\<lfloor>r\<rfloor> \<le> 0" by (simp_all add: ceiling_le_zero)
  with False show ?thesis by simp
qed

lemma avg_cases:
  obtains (one) "avg font = Inr (PyInt 1)"
  | (fin) a where "avg font = Inr (PyFloat (Finite a))" "1 \<le> a"
  | (inf) "avg font = Inr (PyFloat PInf)"
  | (nan) "avg font = Inr (PyFloat NaN)" "getlength font alphabet = NaN"
proof -
  obtain q where q: "truediv (getlength font alphabet) (Finite 52) = Inr q" by simp
  show ?thesis
  proof (cases q)
    case (Finite a)
    show ?thesis
    proof (cases "a < 1")
      case True
      with q Finite have "avg font = Inr (PyInt 1)" by (simp add: avg_def max1_def)
      then show ?thesis by (rule one)
    next
      case False
      with q Finite have "avg font = Inr (PyFloat (Finite a))" by (simp add: avg_def max1_def)
      with False show ?thesis by (intro fin [of a]) simp_all
    qed
  next
    case PInf
    with q have "avg font = Inr (PyFloat PInf)" by (simp add: avg_def max1_def)
    then show ?thesis by (rule inf)
  next
    case NInf
    with q have "avg font = Inr (PyInt 1)" by (simp add: avg_def max1_def)
    then show ?thesis by (rule one)
  next
    case NaN
    with q have a: "avg font = Inr (PyFloat NaN)" by (simp add: avg_def max1_def)
    have "getlength font alphabet = NaN"
      using q NaN by (cases "getlength font alphabet") (auto simp: fl_def split: if_splits)
    with a show ?thesis by (rule nan)
  qed
qed

lemma cols_ge_20: "cols font max_width_px = Inr c \<Longrightarrow> 20 \<le> c"
  by (auto simp: cols_def split: sum.splits)

lemma fl_Finite: "fl x = Finite r \<Longrightarrow> r = rnd x \<and> \<bar>r\<bar> < 2 ^ 1024"
  by (auto simp: fl_def split: if_splits)

lemma fl_in_range:
  assumes "\<bar>rnd x\<bar> < 2 ^ 1024"
  shows "fl x = Finite (rnd x)"
proof -
  from assms have "rnd x < 2 ^ 1024" "- (2 ^ 1024) < rnd x" by linarith+
  then show ?thesis by (simp add: fl_def)
qed

lemma fl_quotient:
  assumes r: "fl x = Finite r" and a: "1 \<le> a"
  shows "fl (r / a) = Finite (rnd (r / a))"
proof -
  from fl_Finite [OF r] have rx: "r = rnd x" and b: "\<bar>r\<bar> < 2 ^ 1024" by blast+
  have idem: "rnd \<bar>r\<bar> = \<bar>r\<bar>"
  proof (cases "0 \<le> r")
    case True
    then show ?thesis by (simp add: rx rnd_idem)
  next
    case False
    then have "rnd \<bar>r\<bar> = - rnd r" by (simp add: rnd_minus)
    with False show ?thesis by (simp add: rx rnd_idem)
  qed
  have "\<bar>r / a\<bar> \<le> \<bar>r\<bar>"
  proof -
    have "\<bar>r\<bar> / a \<le> \<bar>r\<bar> / 1" by (rule divide_left_mono) (use a in simp_all)
    with a show ?thesis by simp
  qed
  then have le: "r / a \<le> \<bar>r\<bar>" and ge: "- \<bar>r\<bar> \<le> r / a" by linarith+
  from rnd_mono [OF le] have "rnd (r / a) \<le> \<bar>r\<bar>" by (simp only: idem)
  moreover from rnd_mono [OF ge] have "- \<bar>r\<bar> \<le> rnd (r / a)" by (simp only: rnd_minus idem)
  ultimately have "\<bar>rnd (r / a)\<bar> < 2 ^ 1024" using b by linarith
  then show ?thesis by (rule fl_in_range)
qed

lemma avg_Finite:
  assumes "getlength font alphabet = Finite g"
  shows "avg font = (case fl (g / 52) of
                       Finite a \<Rightarrow> Inr (if a < 1 then PyInt 1 else PyFloat (Finite a))
                     | PInf \<Rightarrow> Inr (PyFloat PInf)
                     | NInf \<Rightarrow> Inr (PyInt 1)
                     | NaN \<Rightarrow> Inr (PyFloat NaN))"
  by (simp add: avg_def assms max1_def split: pyfloat.splits)

lemma cols_one:
  assumes "avg font = Inr (PyInt 1)"
  shows "cols font w = (case fl (of_int w) of Finite r \<Rightarrow> Inr (max \<lfloor>r\<rfloor> 20) | _ \<Rightarrow> Inl OverflowError)"
  by (simp add: cols_def assms max_trunc_20 split: pyfloat.splits)

lemma cols_fin:
  assumes "avg font = Inr (PyFloat (Finite a))" "1 \<le> a"
  shows "cols font w =
     (case fl (of_int w) of Finite r \<Rightarrow> Inr (max \<lfloor>rnd (r / a)\<rfloor> 20) | _ \<Rightarrow> Inl OverflowError)"
proof (cases "fl (of_int w)")
  case (Finite r)
  from fl_quotient [OF this assms(2)] Finite assms show ?thesis
    by (simp add: cols_def to_float_def max_trunc_20)
qed (use assms in \<open>simp_all add: cols_def to_float_def\<close>)

lemma cols_inf:
  assumes "avg font = Inr (PyFloat PInf)"
  shows "cols font w = (case fl (of_int w) of Finite r \<Rightarrow> Inr 20 | _ \<Rightarrow> Inl OverflowError)"
  by (simp add: cols_def assms to_float_def split: pyfloat.splits)

lemma cols_nan:
  assumes "avg font = Inr (PyFloat NaN)"
  shows "cols font w = (case fl (of_int w) of Finite r \<Rightarrow> Inl ValueError | _ \<Rightarrow> Inl OverflowError)"
  by (simp add: cols_def assms to_float_def split: pyfloat.splits)

lemma cols_mono:
  assumes le: "w1 \<le> w2" and c1: "cols font w1 = Inr c1" and c2: "cols font w2 = Inr c2"
  shows "c1 \<le> c2"
proof -
  obtain r1 where r1: "fl (of_int w1) = Finite r1"
    using c1 by (cases "fl (real_of_int w1)"; cases rule: avg_cases [of font])
      (simp_all add: cols_one cols_fin cols_inf cols_nan)
  obtain r2 where r2: "fl (of_int w2) = Finite r2"
    using c2 by (cases "fl (real_of_int w2)"; cases rule: avg_cases [of font])
      (simp_all add: cols_one cols_fin cols_inf cols_nan)
  have "rnd (of_int w1) \<le> rnd (of_int w2)" by (rule rnd_mono) (use le in simp)
  then have r: "r1 \<le> r2" using fl_Finite [OF r1] fl_Finite [OF r2] by simp
  show ?thesis
  proof (cases rule: avg_cases [of font])
    case one
    from c1 c2 have "c1 = max \<lfloor>r1\<rfloor> 20" "c2 = max \<lfloor>r2\<rfloor> 20"
      by (simp_all add: cols_one [OF one] r1 r2)
    with floor_mono [OF r] show ?thesis by simp
  next
    case (fin a)
    from c1 c2 have c: "c1 = max \<lfloor>rnd (r1 / a)\<rfloor> 20" "c2 = max \<lfloor>rnd (r2 / a)\<rfloor> 20"
      by (simp_all add: cols_fin [OF fin] r1 r2)
    have "r1 / a \<le> r2 / a" using r fin(2) by (simp add: divide_right_mono)
    from floor_mono [OF rnd_mono [OF this]] show ?thesis by (simp add: c)
  next
    case inf
    from c1 c2 show ?thesis by (simp add: cols_inf [OF inf] r1 r2)
  next
    case nan
    from c1 show ?thesis by (simp add: cols_nan [OF nan(1)] r1)
  qed
qed

lemma cols_total:
  assumes "getlength font alphabet \<noteq> NaN" "\<bar>w\<bar> \<le> 2 ^ 1023"
  shows "\<exists>c. cols font w = Inr c"
proof -
  have "\<bar>real_of_int w\<bar> \<le> 2 ^ 1023"
  proof -
    have "real_of_int \<bar>w\<bar> \<le> real_of_int (2 ^ 1023)" using assms(2) by (simp only: of_int_le_iff)
    then show ?thesis by simp
  qed
  from fl_finite [OF this] have r: "fl (of_int w) = Finite (rnd (of_int w))" by simp
  show ?thesis
    by (cases rule: avg_cases [of font])
      (use assms(1) in \<open>simp_all add: cols_one cols_fin cols_inf r\<close>)
qed

lemma cols_small:
  assumes "w \<le> 20" "cols font w = Inr c"
  shows "c = 20"
proof -
  obtain r where r: "fl (of_int w) = Finite r"
    using assms(2) by (cases "fl (real_of_int w)"; cases rule: avg_cases [of font])
      (simp_all add: cols_one cols_fin cols_inf cols_nan)
  have "rnd (of_int w) \<le> rnd 20" by (rule rnd_mono) (use assms(1) in simp)
  then have r20: "r \<le> 20" using fl_Finite [OF r] by (simp add: rnd_20)
  show ?thesis
  proof (cases rule: avg_cases [of font])
    case one
    from assms(2) have "c = max \<lfloor>r\<rfloor> 20" by (simp add: cols_one [OF one] r)
    moreover have "\<lfloor>r\<rfloor> \<le> 20" using r20 by (simp add: floor_le_iff)
    ultimately show ?thesis by simp
  next
    case (fin a)
    from assms(2) have c: "c = max \<lfloor>rnd (r / a)\<rfloor> 20" by (simp add: cols_fin [OF fin] r)
    have "r / a \<le> 20"
    proof (cases "0 \<le> r")
      case True
      have "r / a \<le> r / 1" by (rule divide_left_mono) (use True fin(2) in simp_all)
      with r20 show ?thesis by simp
    next
      case False
      then have "r / a \<le> 0" using fin(2) by (simp add: divide_le_0_iff)
      then show ?thesis by simp
    qed
    from rnd_mono [OF this] have "rnd (r / a) \<le> 20" by (simp add: rnd_20)
    then have "\<lfloor>rnd (r / a)\<rfloor> \<le> 20" by (simp add: floor_le_iff)
    with c show ?thesis by simp
  next
    case inf
    from assms(2) show ?thesis by (simp add: cols_inf [OF inf] r)
  next
    case nan
    from assms(2) show ?thesis by (simp add: cols_nan [OF nan(1)] r)
  qed
qed

section \<open>The layout engine places the rows it emits\<close>

lemma placed_append:
  "placed x y step color (rows @ rows') =
     placed x y step color rows @ placed x (y + int (length rows) * step) step color rows'"
proof (induction rows arbitrary: y)
  case Nil
  show ?case by simp
next
  case (Cons r rows)
  show ?case by (cases r) (simp_all add: Cons.IH algebra_simps)
qed

lemma draw_lines_placed:
  assumes "advance font line_spacing = Inr step"
  shows "draw_lines x font color line_spacing lines (draw, y) =
     Inr (draw @ placed x y step color (map Some lines), y + int (length lines) * step)"
  by (induction lines arbitrary: draw y) (simp_all add: assms algebra_simps)

lemma draw_lines_error:
  assumes "advance font line_spacing = Inl e"
  shows "draw_lines x font color line_spacing lines (draw, y) =
     (if lines = [] then Inr (draw, y) else Inl e)"
  by (cases lines) (simp_all add: assms)

lemma wrap_Inr: "0 < width \<Longrightarrow> wrap u para width = Inr (wrap_loop (nat width) (split_chunks u para) [])"
  by (simp add: wrap_def wrap_chunks_def)

lemma draw_paras_placed:
  assumes "0 < width" "advance font line_spacing = Inr step"
  shows "draw_paras u x font color line_spacing width paras (draw, y) =
     Inr (draw @ placed x y step color (emitted_rows u (nat width) paras),
          y + int (length (emitted_rows u (nat width) paras)) * step)"
proof (induction paras arbitrary: draw y)
  case Nil
  show ?case by simp
next
  case (Cons para paras)
  show ?case
  proof (cases "strip para = []")
    case True
    then show ?thesis by (simp add: assms(2) Cons.IH algebra_simps)
  next
    case False
    then show ?thesis
      by (simp add: wrap_Inr [OF assms(1)] draw_lines_placed [OF assms(2)] Cons.IH placed_append
          algebra_simps)
  qed
qed

lemma draw_paras_error:
  assumes "0 < width" "advance font line_spacing = Inl e"
  shows "draw_paras u x font color line_spacing width paras (draw, y) =
     (if emitted_rows u (nat width) paras = [] then Inr (draw, y) else Inl e)"
proof (induction paras)
  case Nil
  show ?case by simp
next
  case (Cons para paras)
  show ?case
  proof (cases "strip para = []")
    case True
    then show ?thesis by (simp add: assms(2))
  next
    case False
    then show ?thesis
      by (simp add: wrap_Inr [OF assms(1)] draw_lines_error [OF assms(2)] Cons.IH)
  qed
qed

lemma draw_wrapped_placed:
  assumes "cols font max_width_px = Inr c" "advance font line_spacing = Inr step"
  shows "draw_wrapped u draw (x, y) text font color max_width_px line_spacing =
     Inr (draw @ placed x y step color (emitted_rows u (nat c) (split_nl text)),
          y + int (length (emitted_rows u (nat c) (split_nl text))) * step)"
proof -
  have "0 < c" using cols_ge_20 [OF assms(1)] by simp
  then show ?thesis by (simp add: draw_wrapped_def assms(1) draw_paras_placed [OF _ assms(2)])
qed

lemma draw_wrapped_cols_error:
  "cols font max_width_px = Inl e \<Longrightarrow>
   draw_wrapped u draw pos text font color max_width_px line_spacing = Inl e"
  by (simp add: draw_wrapped_def split: prod.splits)

lemma draw_wrapped_advance_error:
  assumes "cols font max_width_px = Inr c" "advance font line_spacing = Inl e"
  shows "draw_wrapped u draw (x, y) text font color max_width_px line_spacing =
     (if emitted_rows u (nat c) (split_nl text) = [] then Inr (draw, y) else Inl e)"
proof -
  have "0 < c" using cols_ge_20 [OF assms(1)] by simp
  then show ?thesis by (simp add: draw_wrapped_def assms(1) draw_paras_error [OF _ assms(2)])
qed

text \<open>
  The engine raises what Python's float arithmetic raises: a width that is too large
  for a float, and a line height that is not finite.
\<close>

lemma rnd_2_1024: "rnd (2 ^ 1024) = 2 ^ 1024"
  using rnd_pow2 [of 1024] by simp

lemma cols_overflow: "cols (mono_font 10 1) (2 ^ 1024) = Inl OverflowError"
proof -
  have "real_of_int (2 ^ 1024) = 2 ^ 1024" by simp
  then have "rnd (real_of_int (2 ^ 1024)) = 2 ^ 1024" by (simp only: rnd_2_1024)
  then have "fl (real_of_int (2 ^ 1024)) = PInf" by (simp only: fl_def order_refl if_True)
  moreover have "avg (mono_font 10 1) = Inr (PyFloat (Finite 1))"
    by (simp add: engine_eval)
  ultimately show ?thesis using cols_fin [of "mono_font 10 1" 1 "2 ^ 1024"] by simp
qed

lemma advance_overflow: "advance (mono_font 10 1) PInf = Inl OverflowError"
  by (simp add: engine_eval)

lemma rnd_2_1023: "rnd (2 ^ 1023) = 2 ^ 1023"
  using rnd_pow2 [of 1023] by simp

lemma fl_huge:
  assumes "2 ^ 1024 \<le> x"
  shows "fl x = PInf"
proof -
  from rnd_mono [OF assms] have "2 ^ 1024 \<le> rnd x" by (simp only: rnd_2_1024)
  then show ?thesis by (simp only: fl_def if_True)
qed

lemma advance_overflow_finite:
  "advance (mono_font 10 1) (Finite (2 ^ 1023)) = Inl OverflowError"
proof -
  have ten: "to_float 10 = Inr (Finite 10)" by (simp add: float_eval)
  have "(2::real) ^ 1023 \<le> 1 + 2 ^ 1023" by simp
  from rnd_mono [OF this] have lo: "2 ^ 1023 \<le> rnd (1 + 2 ^ 1023)" by (simp only: rnd_2_1023)
  have "fmul (Finite 10) (fl (1 + 2 ^ 1023)) = PInf"
  proof (cases "fl (1 + 2 ^ 1023 :: real)")
    case (Finite r)
    from fl_Finite [OF this] lo have "2 ^ 1023 \<le> r" by simp
    then have "2 ^ 1024 \<le> 10 * r" by simp
    from fl_huge [OF this] Finite show ?thesis by simp
  next
    case PInf
    then show ?thesis by simp
  next
    case NInf
    have "(0::real) \<le> 2 ^ 1023" by simp
    from this lo have "0 \<le> rnd (1 + 2 ^ 1023)" by (rule order_trans)
    moreover have "- (2 ^ 1024) < (0::real)" by simp
    ultimately have "\<not> rnd (1 + 2 ^ 1023) \<le> - (2 ^ 1024)" by linarith
    with NInf show ?thesis by (simp add: fl_def split: if_splits)
  next
    case NaN
    then show ?thesis by (simp add: fl_def split: if_splits)
  qed
  then show ?thesis by (simp add: advance_def mono_font_def ten)
qed

text \<open>
  The quotients are rounded ones: an alphabet of 54 pixels at a width of 27 pixels
  gives 25 columns, and an alphabet of 1884 pixels at a width of 1884 pixels gives 51.
\<close>

lemma cols_rounded_quotients:
  "cols (mono_font 10 (27/26)) 27 = Inr 25 \<and> cols (mono_font 10 (471/13)) 1884 = Inr 51"
  by (simp add: engine_eval)

section \<open>The column budget\<close>

text \<open>
  Claim C1, as the code has it: for a font whose measured alphabet is a finite float
  \<open>g\<close> and for every \<open>max_width_px\<close> of magnitude up to \<open>2 ^ 1023\<close>, the wrap width is
  the measured width of the 52-character alphabet divided by 52, raised to at least 1
  pixel, \<open>max_width_px\<close> as a float divided by that average and floored, and at least 20
  columns; both quotients are float quotients, rounded to the nearest float.
\<close>

theorem cols_formula:
  assumes "getlength font alphabet = Finite g" "\<bar>g\<bar> \<le> 2 ^ 1024" "\<bar>max_width_px\<bar> \<le> 2 ^ 1023"
  shows "cols font max_width_px =
           Inr (max \<lfloor>rnd (rnd (of_int max_width_px) / max (rnd (g / 52)) 1)\<rfloor> 20)
         \<and> length alphabet = 52"
proof -
  let ?a = "rnd (g / 52)"
  let ?r = "rnd (of_int max_width_px)"
  have "\<bar>g\<bar> / 52 \<le> 2 ^ 1024 / 52" using assms(2) by (simp only: divide_right_mono)
  also have "\<dots> \<le> (2::real) ^ 1023" by simp
  finally have "\<bar>g / 52\<bar> \<le> 2 ^ 1023" by simp
  from fl_finite [OF this] have a: "fl (g / 52) = Finite ?a" by simp
  have "real_of_int \<bar>max_width_px\<bar> \<le> real_of_int (2 ^ 1023)"
    using assms(3) by (simp only: of_int_le_iff)
  then have "\<bar>real_of_int max_width_px\<bar> \<le> 2 ^ 1023" by simp
  from fl_finite [OF this] have r: "fl (of_int max_width_px) = Finite ?r" by simp
  have "cols font max_width_px = Inr (max \<lfloor>rnd (?r / max ?a 1)\<rfloor> 20)"
  proof (cases "?a < 1")
    case True
    then have "avg font = Inr (PyInt 1)" by (simp add: avg_Finite [OF assms(1)] a)
    from cols_one [OF this, of max_width_px] True show ?thesis by (simp add: r rnd_idem)
  next
    case False
    then have "avg font = Inr (PyFloat (Finite ?a))" by (simp add: avg_Finite [OF assms(1)] a)
    from cols_fin [OF this, of max_width_px] False show ?thesis by (simp add: r max_def)
  qed
  then show ?thesis by (simp add: length_alphabet)
qed

theorem cols_formula_witness:
  "getlength (mono_font 10 (27/26)) alphabet = Finite 54 \<and>
   cols (mono_font 10 (27/26)) 27 = Inr 25"
proof -
  have g: "getlength (mono_font 10 (27/26)) alphabet = Finite 54"
    by (simp add: mono_font_def length_alphabet float_eval)
  have v: "max \<lfloor>rnd (rnd 27 / max (rnd (27 / 26)) 1)\<rfloor> 20 = (25 :: int)"
    by (simp add: float_eval)
  from cols_formula [OF g, of 27] show ?thesis by (simp add: g v)
qed

text \<open>
  Claim C1 as stated divides by the measured average itself.  A font whose glyphs are
  half a pixel wide measures 26 pixels for the alphabet, an average of half a pixel; at
  100 pixels the code wraps at 100 columns, where 100 divided by that average is 200.
\<close>

theorem cols_unclamped_average_counterexample:
  "cols (mono_font 1 (1/2)) 100 = Inr 100 \<and>
   truediv (getlength (mono_font 1 (1/2)) alphabet) (Finite 52) = Inr (Finite (1/2)) \<and>
   int_truediv 100 (PyFloat (Finite (1/2))) = Inr (Finite 200)"
  by (simp add: engine_eval)

text \<open>
  Claim C9, as the code has it: there is no error for a small width budget.  For a
  font whose measured alphabet is not a NaN and every width budget of magnitude up to
  \<open>2 ^ 1023\<close>, the column budget is computed and is never below 20; at a width budget
  of 20 pixels or less, and so at a non-positive one, it is 20; and whenever the line
  height is computed, \<open>draw_wrapped\<close> returns its result.
\<close>

theorem no_dimension_error:
  assumes "getlength font alphabet \<noteq> NaN" "\<bar>max_width_px\<bar> \<le> 2 ^ 1023"
  shows "\<exists>c. cols font max_width_px = Inr c \<and> 20 \<le> c \<and> (max_width_px \<le> 20 \<longrightarrow> c = 20) \<and>
     (\<forall>step. advance font line_spacing = Inr step \<longrightarrow>
        (\<exists>r. draw_wrapped u draw pos text font color max_width_px line_spacing = Inr r))"
proof -
  from cols_total [OF assms] obtain c where c: "cols font max_width_px = Inr c" ..
  have "20 \<le> c" using c by (rule cols_ge_20)
  moreover have "max_width_px \<le> 20 \<longrightarrow> c = 20" using cols_small [OF _ c] by blast
  moreover have "\<forall>step. advance font line_spacing = Inr step \<longrightarrow>
        (\<exists>r. draw_wrapped u draw pos text font color max_width_px line_spacing = Inr r)"
  proof (intro allI impI)
    fix step assume "advance font line_spacing = Inr step"
    from draw_wrapped_placed [OF c this, of u draw "fst pos" "snd pos" "text" color]
    show "\<exists>r. draw_wrapped u draw pos text font color max_width_px line_spacing = Inr r"
      by simp
  qed
  ultimately show ?thesis using c by blast
qed

theorem no_dimension_error_witness:
  "getlength (mono_font 10 1) alphabet \<noteq> NaN \<and> \<bar>- 5 :: int\<bar> \<le> 2 ^ 1023 \<and> (- 5 :: int) \<le> 20 \<and>
   advance (mono_font 10 1) (Finite (1/4)) = Inr 12 \<and>
   cols (mono_font 10 1) (- 5) = Inr 20 \<and>
   (\<exists>r. draw_wrapped ascii_ucd [] (0, 0) (str ''A'') (mono_font 10 1) ink (- 5) (Finite (1/4)) = Inr r)"
proof -
  have g: "getlength (mono_font 10 1) alphabet \<noteq> NaN"
    by (simp add: mono_font_def length_alphabet float_eval)
  have w: "\<bar>- 5 :: int\<bar> \<le> 2 ^ 1023" by simp
  have a: "advance (mono_font 10 1) (Finite (1/4)) = Inr 12"
    by (simp add: advance_def mono_font_def float_eval)
  from no_dimension_error [OF g w, of "Finite (1/4)" ascii_ucd "[]" "(0, 0)" "str ''A''" ink]
  show ?thesis using g a by auto
qed

text \<open>
  Claim C9 as stated expects an error for a width budget of 0.  The code wraps at 20
  columns and draws the line.
\<close>

theorem zero_width_counterexample:
  "cols (mono_font 10 1) 0 = Inr 20 \<and>
   draw_wrapped ascii_ucd [] (0, 0) (str ''A'') (mono_font 10 1) ink 0 (Finite (1/4)) =
     Inr ([\<lparr>xy = (0, 0), op_text = str ''A'', fill = ink\<rparr>], 12)"
  by (simp add: engine_eval)

section \<open>The vertical advance\<close>

text \<open>
  Claim C2, as the code has it: when the column budget is computed and the float
  product \<open>font.size * (1.0 + line_spacing)\<close> is a finite float \<open>p\<close> (the sum is rounded to
  a float, and then the product), every emitted line and every blank paragraph moves
  the cursor by \<open>p\<close> truncated towards zero; a line is drawn at the cursor before the
  move and a blank paragraph draws nothing.
\<close>

theorem line_advance_truncates:
  assumes "cols font max_width_px = Inr c"
    and "num_times (font_size font) (fadd (Finite 1) line_spacing) = Inr (Finite p)"
  shows "draw_wrapped u draw (x, y) text font color max_width_px line_spacing =
     Inr (draw @ placed x y (if 0 \<le> p then \<lfloor>p\<rfloor> else \<lceil>p\<rceil>) color
                   (emitted_rows u (nat c) (split_nl text)),
          y + int (length (emitted_rows u (nat c) (split_nl text)))
                * (if 0 \<le> p then \<lfloor>p\<rfloor> else \<lceil>p\<rceil>))"
proof -
  have "advance font line_spacing = Inr (if 0 \<le> p then \<lfloor>p\<rfloor> else \<lceil>p\<rceil>)"
    by (simp add: advance_def assms(2))
  from draw_wrapped_placed [OF assms(1) this] show ?thesis .
qed

theorem line_advance_truncates_witness:
  "cols (mono_font 25 1) 2000 = Inr 2000 \<and>
   num_times (font_size (mono_font 25 1)) (fadd (Finite 1) (fl (4/25))) =
     Inr (Finite (8162774324609023 / 281474976710656)) \<and>
   draw_wrapped ascii_ucd [] (0, 0) (str ''A'') (mono_font 25 1) ink 2000 (fl (4/25)) =
     Inr ([\<lparr>xy = (0, 0), op_text = str ''A'', fill = ink\<rparr>], 28)"
proof -
  have c: "cols (mono_font 25 1) 2000 = Inr 2000"
    by (simp add: engine_eval)
  have p: "num_times (font_size (mono_font 25 1)) (fadd (Finite 1) (fl (4/25))) =
     Inr (Finite (8162774324609023 / 281474976710656))"
    by (simp add: mono_font_def float_eval)
  have rows: "emitted_rows ascii_ucd 2000 (split_nl (str ''A'')) = [Some (str ''A'')]"
    by (simp add: engine_eval)
  from line_advance_truncates [OF c p, of ascii_ucd "[]" 0 0 "str ''A''" ink] c p
  show ?thesis by (simp add: rows)
qed

text \<open>
  Claim C2 as stated rounds to the nearest pixel.  At size 7 and spacing 0.25 the
  product is 8.75: the line \<open>A\<close> moves the cursor by 8, the nearest integer is 9.
\<close>

theorem advance_not_rounded_counterexample:
  "draw_wrapped ascii_ucd [] (0, 0) (str ''A'') (mono_font 7 1) ink 2000 (Finite (1/4)) =
     Inr ([\<lparr>xy = (0, 0), op_text = str ''A'', fill = ink\<rparr>], 8) \<and>
   num_times (font_size (mono_font 7 1)) (fadd (Finite 1) (Finite (1/4))) = Inr (Finite (35/4)) \<and>
   round (35/4 :: real) = (9 :: int)"
proof (intro conjI)
  show "draw_wrapped ascii_ucd [] (0, 0) (str ''A'') (mono_font 7 1) ink 2000 (Finite (1/4)) =
     Inr ([\<lparr>xy = (0, 0), op_text = str ''A'', fill = ink\<rparr>], 8)"
    by (simp add: engine_eval)
  show "num_times (font_size (mono_font 7 1)) (fadd (Finite 1) (Finite (1/4))) = Inr (Finite (35/4))"
    by (simp add: mono_font_def float_eval)
  show "round (35/4 :: real) = (9 :: int)"
    by (simp add: round_def)
qed

text \<open>
  Claim C10, as the code has it: when the column budget is computed, there is a
  natural number \<open>k\<close>, the same for every spacing ratio, start position, colour and
  drawing surface, such that for every spacing ratio whose line height
  \<open>int(font.size * (1 + line_spacing))\<close> is computed the returned cursor is the start \<open>y\<close>
  plus \<open>k\<close> line heights; the cursor is not below its start when the line height is not
  negative.
\<close>

theorem cursor_advance:
  assumes "cols font max_width_px = Inr c"
  shows "\<exists>k::nat. \<forall>line_spacing step draw x y color.
     advance font line_spacing = Inr step \<longrightarrow>
       (\<exists>draw'. draw_wrapped u draw (x, y) text font color max_width_px line_spacing =
                  Inr (draw', y + int k * step)) \<and>
       (0 \<le> step \<longrightarrow> y \<le> y + int k * step)"
proof -
  let ?k = "length (emitted_rows u (nat c) (split_nl text))"
  have "\<forall>line_spacing step draw x y color.
     advance font line_spacing = Inr step \<longrightarrow>
       (\<exists>draw'. draw_wrapped u draw (x, y) text font color max_width_px line_spacing =
                  Inr (draw', y + int ?k * step)) \<and>
       (0 \<le> step \<longrightarrow> y \<le> y + int ?k * step)"
    by (simp add: draw_wrapped_placed [OF assms])
  then show ?thesis ..
qed

theorem cursor_advance_witness:
  "cols (mono_font 10 1) 2000 = Inr 2000 \<and>
   advance (mono_font 10 1) (Finite (1/4)) = Inr 12 \<and>
   advance (mono_font 10 1) (Finite (- 2)) = Inr (- 10) \<and>
   (\<exists>k::nat.
     (\<exists>draw'. draw_wrapped ascii_ucd [] (0, 100) (str ''A'') (mono_font 10 1) ink 2000 (Finite (1/4)) =
                Inr (draw', 100 + int k * 12)) \<and>
     (100 :: int) \<le> 100 + int k * 12 \<and>
     (\<exists>draw'. draw_wrapped ascii_ucd [] (0, 100) (str ''A'') (mono_font 10 1) ink 2000 (Finite (- 2)) =
                Inr (draw', 100 + int k * (- 10))))"
proof -
  have c: "cols (mono_font 10 1) 2000 = Inr 2000"
    by (simp add: engine_eval)
  have a: "advance (mono_font 10 1) (Finite (1/4)) = Inr 12"
    by (simp add: advance_def mono_font_def float_eval)
  have b: "advance (mono_font 10 1) (Finite (- 2)) = Inr (- 10)"
    by (simp add: advance_def mono_font_def float_eval)
  from cursor_advance [OF c, of ascii_ucd "str ''A''"] obtain k :: nat where
    k: "\<And>line_spacing step draw x y color.
       advance (mono_font 10 1) line_spacing = Inr step \<Longrightarrow>
       (\<exists>draw'. draw_wrapped ascii_ucd draw (x, y) (str ''A'') (mono_font 10 1) color 2000 line_spacing =
                  Inr (draw', y + int k * step)) \<and>
       (0 \<le> step \<longrightarrow> y \<le> y + int k * step)"
    by blast
  from k [OF a, of "[]" 0 100 ink] k [OF b, of "[]" 0 100 ink] c a b show ?thesis
    by auto
qed

text \<open>
  Claim C10 as stated has the cursor never below its start for every spacing ratio.
  At size 10 and spacing ratio -2 the step is -10: the line \<open>A\<close> drawn at \<open>y = 100\<close>
  returns 90.
\<close>

theorem cursor_moves_up_counterexample:
  "draw_wrapped ascii_ucd [] (0, 100) (str ''A'') (mono_font 10 1) ink 2000 (Finite (- 2)) =
     Inr ([\<lparr>xy = (0, 100), op_text = str ''A'', fill = ink\<rparr>], 90)"
  by (simp add: engine_eval)

section \<open>Blank lines and the empty text\<close>

lemma split_nl_A_B: "split_nl (str ''A'' @ [10, 10] @ str ''B'') = [str ''A'', [], str ''B'']"
  by (simp add: str_def)

lemma split_chunks_single:
  "\<not> is_ws c \<Longrightarrow> c \<noteq> 9 \<Longrightarrow> split_chunks u [c] = [[c]]"
  by (auto simp: split_chunks_def munge_whitespace_def next_chunk_def em_dash_def is_ws_def)

lemma wrap_loop_single:
  assumes "0 < width" "\<not> isspace c"
  shows "wrap_loop width [[c]] [] = [[c]]"
  using assms by (simp add: wrap_step_def drop_leading_def drop_trailing_def strip_def)

lemma emitted_rows_A_B:
  assumes "0 < width"
  shows "emitted_rows u width [str ''A'', [], str ''B''] = [Some (str ''A''), None, Some (str ''B'')]"
proof -
  have A: "str ''A'' = [65]" and B: "str ''B'' = [66]" by (simp_all add: str_def)
  have "split_chunks u [65] = [[65]]" "split_chunks u [66] = [[66]]"
    by (simp_all add: split_chunks_single is_ws_def)
  moreover have "wrap_loop width [[65]] [] = [[65]]" "wrap_loop width [[66]] [] = [[66]]"
    using assms by (simp_all add: wrap_loop_single isspace_def del: wrap_loop.simps)
  moreover have "strip [65] \<noteq> []" "strip [66] \<noteq> []" "strip [] = []"
    by (simp_all add: strip_def isspace_def)
  ultimately show ?thesis unfolding A B by (simp del: wrap_loop.simps)
qed

text \<open>
  Claim C3: at every column budget from 1 on, and so at every budget that
  \<open>draw_wrapped\<close> computes, the text \<open>A\<close>, newline, newline, \<open>B\<close> moves the cursor three
  times: the line \<open>A\<close> is drawn at the start, the blank paragraph takes the second
  step without drawing, the line \<open>B\<close> is drawn two steps down, and the cursor ends
  three steps down.  The call raises an error only when the column budget or the line
  height does.
\<close>

theorem blank_line_preserved:
  "(0 < width \<longrightarrow>
      draw_paras u x font color line_spacing width (split_nl (str ''A'' @ [10, 10] @ str ''B'')) (draw, y) =
        (case advance font line_spacing of
           Inl e \<Rightarrow> Inl e
         | Inr step \<Rightarrow>
             Inr (draw @ [\<lparr>xy = (x, y), op_text = str ''A'', fill = color\<rparr>,
                          \<lparr>xy = (x, y + 2 * step), op_text = str ''B'', fill = color\<rparr>],
                  y + 3 * step))) \<and>
   draw_wrapped u draw (x, y) (str ''A'' @ [10, 10] @ str ''B'') font color max_width_px line_spacing =
     (case cols font max_width_px of
        Inl e \<Rightarrow> Inl e
      | Inr c \<Rightarrow>
          (case advance font line_spacing of
             Inl e \<Rightarrow> Inl e
           | Inr step \<Rightarrow>
               Inr (draw @ [\<lparr>xy = (x, y), op_text = str ''A'', fill = color\<rparr>,
                            \<lparr>xy = (x, y + 2 * step), op_text = str ''B'', fill = color\<rparr>],
                    y + 3 * step)))"
proof -
  have paras: "0 < w \<Longrightarrow>
      draw_paras u x font color line_spacing w (split_nl (str ''A'' @ [10, 10] @ str ''B'')) (draw, y) =
        (case advance font line_spacing of
           Inl e \<Rightarrow> Inl e
         | Inr step \<Rightarrow>
             Inr (draw @ [\<lparr>xy = (x, y), op_text = str ''A'', fill = color\<rparr>,
                          \<lparr>xy = (x, y + 2 * step), op_text = str ''B'', fill = color\<rparr>],
                  y + 3 * step))" for w
  proof -
    assume w: "0 < w"
    then have "0 < nat w" by simp
    from emitted_rows_A_B [OF this]
    have rows: "emitted_rows u (nat w) (split_nl (str ''A'' @ [10, 10] @ str ''B'')) =
        [Some (str ''A''), None, Some (str ''B'')]"
      by (simp only: split_nl_A_B)
    show ?thesis
    proof (cases "advance font line_spacing")
      case (Inl e)
      from draw_paras_error [OF w Inl] rows Inl show ?thesis by simp
    next
      case (Inr step)
      from draw_paras_placed [OF w Inr] rows Inr show ?thesis by simp
    qed
  qed
  show ?thesis
  proof (cases "cols font max_width_px")
    case (Inl e)
    with paras [of width] show ?thesis by (simp add: draw_wrapped_def)
  next
    case (Inr c)
    then have "0 < c" using cols_ge_20 [of font max_width_px c] by simp
    from paras [OF this] paras [of width] Inr show ?thesis
      by (simp add: draw_wrapped_def)
  qed
qed

theorem blank_line_preserved_witness:
  "(0::int) < 1 \<and>
   draw_paras ascii_ucd 0 (mono_font 10 1) ink (Finite (1/4)) 1 (split_nl (str ''A'' @ [10, 10] @ str ''B'')) ([], 0) =
     Inr ([\<lparr>xy = (0, 0), op_text = str ''A'', fill = ink\<rparr>,
           \<lparr>xy = (0, 24), op_text = str ''B'', fill = ink\<rparr>], 36)"
proof -
  have adv: "advance (mono_font 10 1) (Finite (1/4)) = Inr 12"
    by (simp add: advance_def mono_font_def float_eval)
  show ?thesis
    using blank_line_preserved [of 1 ascii_ucd 0 "mono_font 10 1" ink "Finite (1/4)" "[]" 0 0]
    by (simp add: adv)
qed

text \<open>
  Claim C5, as the code has it: the empty text draws no line, and the cursor moves
  one step, since splitting the empty text at newlines gives one empty paragraph and
  an empty paragraph is a blank one.  The call raises an error only when the column
  budget or the line height does.
\<close>

theorem empty_text_advances_once:
  "draw_wrapped u draw (x, y) [] font color max_width_px line_spacing =
     (case cols font max_width_px of
        Inl e \<Rightarrow> Inl e
      | Inr c \<Rightarrow>
          (case advance font line_spacing of
             Inl e \<Rightarrow> Inl e
           | Inr step \<Rightarrow> Inr (draw, y + step)))"
  by (simp add: draw_wrapped_def strip_def split: sum.splits)

text \<open>
  Claim C5 as stated returns the start \<open>y\<close>.  At size 10 and spacing 0.25 the empty
  text started at \<open>y = 0\<close> returns 12.
\<close>

theorem empty_text_counterexample:
  "draw_wrapped ascii_ucd [] (0, 0) [] (mono_font 10 1) ink 2000 (Finite (1/4)) = Inr ([], 12) \<and>
   draw_wrapped ascii_ucd [] (0, 0) [] (mono_font 10 1) ink 2000 (Finite (1/4)) \<noteq> Inr ([], 0)"
  by (simp add: engine_eval)

section \<open>The noise field\<close>

lemma integers_fresh:
  "fst (integers bg (length heap) low high n (heap @ [g])) =
   fst (integers bg 0 low high n [g])"
proof (induction n arbitrary: g)
  case 0
  show ?case by simp
next
  case (Suc n)
  show ?case by (simp add: Suc.IH case_prod_beta)
qed

lemma noise_any_heap:
  "map_sum id fst (noise bg seed low high dims heap) =
   map_sum id fst (noise bg seed low high dims heap')"
  by (cases dims) (simp add: default_rng_def integers_fresh [of bg heap] integers_fresh [of bg heap'])

lemma make_parchment_any_heap:
  "map_sum id fst (make_parchment bg dims heap) = map_sum id fst (make_parchment bg dims heap')"
proof (cases dims)
  case (Pair width height)
  have "map_sum id fst (noise bg 7 (- 12) 12 (width, height) heap) =
        map_sum id fst (noise bg 7 (- 12) 12 (width, height) heap')"
    by (rule noise_any_heap)
  then show ?thesis unfolding Pair
    by (auto simp del: noise.simps split: sum.splits)
qed

text \<open>
  The two early exits of the noise generation: a negative seed is refused, and an
  empty size gives an empty field before the bounds are looked at.
\<close>

lemma noise_negative_seed: "noise bg (- 1) low high dims heap = Inl ValueError"
  by (cases dims) simp

lemma noise_empty_size: "noise bg 7 5 5 (0, 3) heap = Inr ([], heap @ [seeded bg 7])"
  by (simp add: default_rng_def)

text \<open>
  Claim C7: the noise field, or the error, that a call returns is the same whatever
  generator objects the heap holds when the call starts, so a second call with the
  same seed, bounds and dimensions returns the same field as the first; the same
  holds for the clipped texture of \<open>make_parchment\<close>.
\<close>

theorem noise_deterministic:
  "map_sum id fst (noise bg seed low high (width, height) heap) =
     map_sum id fst (noise bg seed low high (width, height) heap') \<and>
   map_sum id fst (make_parchment bg (width, height) heap) =
     map_sum id fst (make_parchment bg (width, height) heap')"
  using noise_any_heap [of bg seed low high "(width, height)" heap heap']
    make_parchment_any_heap [of bg "(width, height)" heap heap']
  by (simp del: noise.simps make_parchment.simps)

section \<open>Adding the noise saturates\<close>

lemma uint_astype_int16: "uint (astype_int16 b) = uint b"
  unfolding astype_int16_def by (rule uint_up_ucast) (simp add: is_up)

lemma uint8_less: "uint (b :: uint8) < 256"
  using uint_lt2p [of b] by simp

lemma sint_astype_int16: "sint (astype_int16 b) = uint b"
proof -
  have "sint (astype_int16 b) = signed_take_bit 15 (uint (astype_int16 b))"
    by (simp add: sint_uint)
  also have "\<dots> = uint b"
  proof -
    have "0 \<le> uint b" by simp
    with uint8_less [of b] have "- 32768 \<le> uint b" "uint b < 32768" by linarith+
    then have "signed_take_bit 15 (uint b) = uint b"
      by (intro signed_take_bit_int_eq_self) simp_all
    then show ?thesis by (simp only: uint_astype_int16)
  qed
  finally show ?thesis .
qed

lemma sint_sum:
  assumes "sint p \<le> 32512"
  shows "sint (astype_int16 b + p) = uint b + sint p"
proof -
  have "- 32768 \<le> sint p" using sint_ge [of p] by simp
  moreover have "0 \<le> uint b" by simp
  ultimately have "- 32768 \<le> uint b + sint p" "uint b + sint p < 32768"
    using assms uint8_less [of b] by linarith+
  then have "signed_take_bit 15 (uint b + sint p) = uint b + sint p"
    by (intro signed_take_bit_int_eq_self) simp_all
  then show ?thesis by (simp add: sint_word_ariths sint_astype_int16)
qed

lemma sint_clip: "sint (clip a 0 255) = clamp (sint a) 0 255"
  by (auto simp: clip_def clamp_def Let_def word_sless_alt)

lemma uint_astype_uint8:
  assumes "0 \<le> sint a" "sint a \<le> 255"
  shows "uint (astype_uint8 a) = sint a"
proof -
  have "uint a = take_bit 16 (sint a)" by (simp add: uint_sint)
  also have "\<dots> = sint a" using assms by (simp add: take_bit_int_eq_self)
  finally have "uint a = sint a" .
  then show ?thesis using assms
    by (simp add: astype_uint8_def unsigned_ucast_eq take_bit_int_eq_self)
qed

text \<open>
  Claim C8: for every base value \<open>b\<close> and every perturbation \<open>p\<close> up to 32512, and so
  for every value drawn from the ranges \<open>[-12, 12)\<close> and \<open>[-10, 10)\<close> of the scripts,
  the channel after adding the noise is \<open>clamp(b + p, 0, 255)\<close>: neither the \<open>int16\<close>
  sum nor the conversion to \<open>uint8\<close> wraps.
\<close>

theorem add_noise_saturates:
  assumes "sint p \<le> 32512"
  shows "uint (add_noise b p) = clamp (uint b + sint p) 0 255"
proof -
  have "sint (clip (astype_int16 b + p) 0 255) = clamp (uint b + sint p) 0 255"
    by (simp add: sint_clip sint_sum [OF assms])
  moreover have "0 \<le> clamp (uint b + sint p) 0 255" "clamp (uint b + sint p) 0 255 \<le> 255"
    by (simp_all add: clamp_def)
  ultimately show ?thesis
    by (simp add: add_noise_def uint_astype_uint8)
qed

theorem add_noise_saturates_witness:
  "sint (11 :: int16) \<le> 32512 \<and> uint (add_noise 250 11) = 255 \<and> clamp (250 + 11) 0 255 = 255"
  using add_noise_saturates [of 11 250] by (simp add: clamp_def)

section \<open>No line is longer than the column budget\<close>











section \<open>A wider budget and the number of lines\<close>

lemma fit_mono: "w \<le> w' \<Longrightarrow> fit w s \<le> fit w' s"
proof (induction s arbitrary: w w')
  case Nil
  show ?case by simp
next
  case (Cons c s)
  have "fit (w - length c) s \<le> fit (w' - length c) s"
    by (rule Cons.IH) (use Cons.prems in simp)
  with Cons.prems show ?case by simp
qed

lemma fit_drop: "m \<le> fit w s \<Longrightarrow> fit w s \<le> m + fit w (drop m s)"
proof (induction s arbitrary: w m)
  case Nil
  then show ?case by simp
next
  case (Cons c s)
  show ?case
  proof (cases m)
    case 0
    then show ?thesis by simp
  next
    case (Suc m')
    with Cons.prems have fits: "length c \<le> w" and m': "m' \<le> fit (w - length c) s"
      by (simp_all split: if_splits)
    from Cons.IH [OF m'] have "fit (w - length c) s \<le> m' + fit (w - length c) (drop m' s)" .
    also have "\<dots> \<le> m' + fit w (drop m' s)"
      using fit_mono [of "w - length c" w "drop m' s"] by simp
    finally show ?thesis using fits Suc by simp
  qed
qed

lemma fit_pos: "s \<noteq> [] \<Longrightarrow> length (hd s) \<le> w \<Longrightarrow> 0 < fit w s"
  by (cases s) simp_all

lemma fill_line_fit:
  assumes "cur_len \<le> width"
  shows "fst (fill_line width s cur_line cur_len) = cur_line @ take (fit (width - cur_len) s) s \<and>
         snd (snd (fill_line width s cur_line cur_len)) = drop (fit (width - cur_len) s) s"
  using assms
proof (induction s arbitrary: cur_line cur_len)
  case Nil
  show ?case by simp
next
  case (Cons c s)
  show ?case
  proof (cases "cur_len + length c \<le> width")
    case True
    then have le: "length c \<le> width - cur_len" using Cons.prems by simp
    from Cons.IH [OF True, of "cur_line @ [c]"] True le show ?thesis
      by simp
  next
    case False
    then have "\<not> length c \<le> width - cur_len" using Cons.prems by simp
    with False show ?thesis by simp
  qed
qed

lemma wrap_step_short:
  assumes "\<forall>c \<in> set chunks. length c \<le> width"
  shows "wrap_step width has_lines chunks =
     (drop_trailing (take (fit width (drop_leading has_lines chunks)) (drop_leading has_lines chunks)),
      drop (fit width (drop_leading has_lines chunks)) (drop_leading has_lines chunks))"
proof -
  let ?s = "drop_leading has_lines chunks"
  let ?k = "fit width ?s"
  obtain cur_line cur_len chunks' where
    fl: "fill_line width ?s [] 0 = (cur_line, cur_len, chunks')"
    by (metis prod_cases3)
  from fill_line_fit [of 0 width ?s "[]"] fl
  have cl: "cur_line = take ?k ?s" and ch: "chunks' = drop ?k ?s" by simp_all
  have "set ?s \<subseteq> set chunks"
    by (auto simp: drop_leading_def split: list.splits if_splits)
  then have "set chunks' \<subseteq> set chunks" using ch set_drop_subset [of ?k ?s] by blast
  then have "\<not> (chunks' \<noteq> [] \<and> length (hd chunks') > width)"
    using assms by (cases chunks') (auto simp: not_less)
  then have "(if chunks' \<noteq> [] \<and> length (hd chunks') > width
                 then handle_long_word chunks' cur_line cur_len width
                 else (cur_line, chunks')) = (cur_line, chunks')"
    by (simp only: if_False)
  then have "wrap_step width has_lines chunks = (drop_trailing cur_line, chunks')"
    unfolding wrap_step_def fl prod.case by (simp only: prod.case)
  then show ?thesis by (simp only: cl ch)
qed

lemma drop_trailing_nonempty:
  assumes "s \<noteq> []" "strip (hd s) \<noteq> []" "0 < k"
  shows "drop_trailing (take k s) \<noteq> []"
proof -
  obtain c cs where s: "s = c # cs" using assms(1) by (cases s) auto
  obtain k' where k: "k = Suc k'" using assms(3) by (cases k) auto
  show ?thesis
  proof (cases "take k' cs = []")
    case True
    then show ?thesis using assms(2) by (simp add: s k drop_trailing_def)
  next
    case False
    then show ?thesis by (simp add: s k drop_trailing_def)
  qed
qed

lemma spaced_tl: "spaced (c # cs) \<Longrightarrow> spaced cs"
  by (cases cs) simp_all

lemma spaced_drop: "spaced xs \<Longrightarrow> spaced (drop n xs)"
proof (induction n arbitrary: xs)
  case 0
  then show ?case by simp
next
  case (Suc n)
  show ?case
  proof (cases xs)
    case Nil
    then show ?thesis by simp
  next
    case (Cons c cs)
    with Suc.prems have "spaced cs" by (auto dest: spaced_tl)
    from Suc.IH [OF this] Cons show ?thesis by simp
  qed
qed

lemma drop_leading_drop:
  "drop_leading True xs = drop (if xs \<noteq> [] \<and> strip (hd xs) = [] then 1 else 0) xs"
  by (cases xs) (simp_all add: drop_leading_def)

lemma drop_leading_head:
  assumes "spaced xs" "drop_leading True xs \<noteq> []"
  shows "strip (hd (drop_leading True xs)) \<noteq> []"
proof (cases xs)
  case Nil
  with assms show ?thesis by (simp add: drop_leading_def)
next
  case (Cons c cs)
  show ?thesis
  proof (cases "strip c = []")
    case True
    with assms Cons show ?thesis by (cases cs) (simp_all add: drop_leading_def)
  next
    case False
    with Cons show ?thesis by (simp add: drop_leading_def)
  qed
qed

lemma wrap_loop_grows: "length lines \<le> length (wrap_loop width chunks lines)"
proof (induction width chunks lines rule: wrap_loop.induct)
  case (1 width lines)
  show ?case by simp
next
  case (2 width c cs lines)
  obtain cur_line chunks' where st: "wrap_step width (lines \<noteq> []) (c # cs) = (cur_line, chunks')"
    by (cases "wrap_step width (lines \<noteq> []) (c # cs)")
  show ?case
  proof (cases "cur_line = []")
    case True
    with "2.IH" [OF st [symmetric]] st show ?thesis by simp
  next
    case False
    have "length (lines @ [concat cur_line]) \<le> length (wrap_loop width chunks' (lines @ [concat cur_line]))"
      using "2.IH" [OF st [symmetric]] False by simp
    with st False show ?thesis by simp
  qed
qed

lemma wrap_loop_lines:
  assumes "lines \<noteq> []" "lines' \<noteq> []"
  shows "length (wrap_loop width chunks lines) + length lines' =
         length (wrap_loop width chunks lines') + length lines"
  using assms
proof (induction width chunks lines arbitrary: lines' rule: wrap_loop.induct)
  case (1 width lines)
  show ?case by simp
next
  case (2 width c cs lines)
  obtain cur_line chunks' where st: "wrap_step width True (c # cs) = (cur_line, chunks')"
    by (cases "wrap_step width True (c # cs)")
  have st': "(cur_line, chunks') = wrap_step width (lines \<noteq> []) (c # cs)"
    using st "2.prems"(1) by simp
  show ?case
  proof (cases "cur_line = []")
    case True
    have L: "wrap_loop width (c # cs) lines = wrap_loop width chunks' lines"
      and L': "wrap_loop width (c # cs) lines' = wrap_loop width chunks' lines'"
      using st "2.prems" True by simp_all
    have "length (wrap_loop width chunks' lines) + length lines' =
          length (wrap_loop width chunks' lines') + length lines"
      using "2.IH" [OF st', of lines'] "2.prems" True by simp
    then show ?thesis by (simp only: L L')
  next
    case False
    let ?l = "concat cur_line"
    have L: "wrap_loop width (c # cs) lines = wrap_loop width chunks' (lines @ [?l])"
      and L': "wrap_loop width (c # cs) lines' = wrap_loop width chunks' (lines' @ [?l])"
      using st "2.prems" False by simp_all
    have "length (wrap_loop width chunks' (lines @ [?l])) + length (lines' @ [?l]) =
          length (wrap_loop width chunks' (lines' @ [?l])) + length (lines @ [?l])"
      using "2.IH" [OF st', of "lines' @ [?l]"] False by simp
    then have "length (wrap_loop width chunks' (lines @ [?l])) + length lines' =
          length (wrap_loop width chunks' (lines' @ [?l])) + length lines"
      by simp
    then show ?thesis by (simp only: L L')
  qed
qed

lemma wrap_loop_step:
  assumes "xs \<noteq> []" "\<forall>c \<in> set xs. length c \<le> w" "ls \<noteq> []"
  shows "wrap_loop w xs ls =
     wrap_loop w (drop (fit w (drop_leading True xs)) (drop_leading True xs))
       (if drop_trailing (take (fit w (drop_leading True xs)) (drop_leading True xs)) \<noteq> []
        then ls @ [concat (drop_trailing (take (fit w (drop_leading True xs)) (drop_leading True xs)))]
        else ls)"
proof -
  obtain c cs where xs: "xs = c # cs" using assms(1) by (cases xs) auto
  have "wrap_step w (ls \<noteq> []) xs =
     (drop_trailing (take (fit w (drop_leading True xs)) (drop_leading True xs)),
      drop (fit w (drop_leading True xs)) (drop_leading True xs))"
    using wrap_step_short [OF assms(2), of True] assms(3) by simp
  then show ?thesis unfolding xs by simp
qed

lemma stays_ahead:
  assumes "w \<le> w'"
  shows "(\<forall>c \<in> set xs. length c \<le> w) \<Longrightarrow> spaced xs \<Longrightarrow> ls \<noteq> [] \<Longrightarrow> ls' \<noteq> [] \<Longrightarrow>
     length (wrap_loop w' (drop j xs) ls') + length ls \<le> length (wrap_loop w xs ls) + length ls'"
proof (induction xs arbitrary: j ls ls' rule: length_induct)
  case (1 xs)
  note short = "1.prems"(1) and sp = "1.prems"(2) and ls = "1.prems"(3) and ls' = "1.prems"(4)
  let ?ys = "drop j xs"
  have short': "\<forall>c \<in> set ?ys. length c \<le> w'"
    using short assms set_drop_subset [of j xs] by fastforce
  show ?case
  proof (cases "?ys = []")
    case True
    with wrap_loop_grows [of ls w xs] show ?thesis by simp
  next
    case ys: False
    then have xs: "xs \<noteq> []" by auto
    let ?a = "if xs \<noteq> [] \<and> strip (hd xs) = [] then 1 else 0 :: nat"
    let ?s = "drop_leading True xs"
    let ?k = "fit w ?s"
    let ?line = "drop_trailing (take ?k ?s)"
    let ?xs' = "drop ?k ?s"
    let ?a' = "if ?ys \<noteq> [] \<and> strip (hd ?ys) = [] then 1 else 0 :: nat"
    let ?s' = "drop_leading True ?ys"
    let ?k' = "fit w' ?s'"
    let ?line' = "drop_trailing (take ?k' ?s')"
    let ?ys' = "drop ?k' ?s'"
    let ?ls1' = "if ?line' \<noteq> [] then ls' @ [concat ?line'] else ls'"
    have s: "?s = drop ?a xs" by (rule drop_leading_drop)
    have s': "?s' = drop (?a' + j) xs" using drop_leading_drop [of ?ys] by simp
    have stepy: "wrap_loop w' ?ys ls' = wrap_loop w' ?ys' ?ls1'"
      by (rule wrap_loop_step [OF ys short' ls'])
    have ls1': "?ls1' \<noteq> []" "length ?ls1' \<le> Suc (length ls')" using ls' by simp_all
    show ?thesis
    proof (cases "?s = []")
      case True
      then have "length xs \<le> 1" using s by (simp split: if_splits)
      with ys have j: "j = 0" by (cases j) simp_all
      then have "?ys' = []" "?line' = []" using True by (simp_all add: drop_trailing_def)
      with stepy have "wrap_loop w' ?ys ls' = ls'" by simp
      with wrap_loop_grows [of ls w xs] show ?thesis by simp
    next
      case False
      have "hd ?s \<in> set xs" using False s by (metis hd_in_set in_set_dropD)
      then have kpos: "0 < ?k" using fit_pos [OF False] short by simp
      have line: "?line \<noteq> []"
        by (rule drop_trailing_nonempty [OF False drop_leading_head [OF sp False] kpos])
      have stepx: "wrap_loop w xs ls = wrap_loop w ?xs' (ls @ [concat ?line])"
        using wrap_loop_step [OF xs short ls] line by simp
      have xs': "?xs' = drop (?k + ?a) xs" by (simp only: s drop_drop)
      have shorter: "length ?xs' < length xs" using kpos xs by (simp add: xs')
      have short_xs': "\<forall>c \<in> set ?xs'. length c \<le> w"
        using short set_drop_subset [of "?k + ?a" xs] unfolding xs' by blast
      have sp_xs': "spaced ?xs'" unfolding xs' by (rule spaced_drop [OF sp])
      have ahead: "?k + ?a \<le> ?k' + (?a' + j)"
      proof (cases j)
        case 0
        then have "?s' = ?s" by simp
        then show ?thesis using fit_mono [OF assms, of ?s] 0 by simp
      next
        case (Suc j0)
        let ?m = "j + ?a' - ?a"
        have a: "?a \<le> j" using Suc by simp
        have sm: "?s' = drop ?m ?s" using a by (simp add: s s' add.commute)
        show ?thesis
        proof (cases "?k \<le> ?m")
          case True
          with a show ?thesis by simp
        next
          case False
          then have "?m \<le> ?k" by simp
          from fit_drop [OF this] have "?k \<le> ?m + fit w (drop ?m ?s)" .
          also have "\<dots> \<le> ?m + fit w' (drop ?m ?s)" using fit_mono [OF assms] by simp
          finally have "?k \<le> ?m + ?k'" by (simp only: sm)
          with a show ?thesis by simp
        qed
      qed
      let ?j' = "?k' + (?a' + j) - (?k + ?a)"
      have ys': "?ys' = drop ?j' ?xs'"
        using ahead by (simp only: s' xs' drop_drop) simp
      have "length (wrap_loop w' (drop ?j' ?xs') ?ls1') + length (ls @ [concat ?line])
            \<le> length (wrap_loop w ?xs' (ls @ [concat ?line])) + length ?ls1'"
        using "1.IH" shorter short_xs' sp_xs' ls1'(1) by blast
      then have "length (wrap_loop w' ?ys ls') + length (ls @ [concat ?line])
            \<le> length (wrap_loop w xs ls) + length ?ls1'"
        by (simp only: stepy stepx ys')
      with ls1'(2) show ?thesis by simp
    qed
  qed
qed

lemma regular_short: "regular w xs \<Longrightarrow> \<forall>c \<in> set xs. length c \<le> w"
  by (simp add: regular_def list_all_iff)

lemma wrap_loop_first:
  assumes "regular w xs"
  shows "length (wrap_loop w xs [d]) = Suc (length (wrap_loop w xs []))"
proof (cases xs)
  case Nil
  then show ?thesis by simp
next
  case (Cons c cs)
  from assms have short: "\<forall>c \<in> set xs. length c \<le> w" by (rule regular_short)
  from assms Cons have c: "strip c \<noteq> []" by (simp add: regular_def)
  have dl: "drop_leading b xs = xs" for b using c Cons by (simp add: drop_leading_def)
  let ?k = "fit w xs"
  let ?line = "drop_trailing (take ?k xs)"
  have step: "wrap_step w b xs = (?line, drop ?k xs)" for b
    using wrap_step_short [OF short, of b] by (simp only: dl)
  have "0 < ?k" using fit_pos [of xs w] short Cons by simp
  then have line: "?line \<noteq> []"
    using drop_trailing_nonempty [of xs ?k] c Cons by simp
  have "wrap_loop w xs [] = wrap_loop w (drop ?k xs) [concat ?line]"
    using step [of False] line unfolding Cons by simp
  moreover have "wrap_loop w xs [d] = wrap_loop w (drop ?k xs) [d, concat ?line]"
    using step [of True] line unfolding Cons by simp
  moreover have "length (wrap_loop w (drop ?k xs) [d, concat ?line]) + length [concat ?line] =
      length (wrap_loop w (drop ?k xs) [concat ?line]) + length [d, concat ?line]"
    by (rule wrap_loop_lines) simp_all
  ultimately show ?thesis by simp
qed

lemma wrap_loop_mono:
  assumes "w \<le> w'" "regular w xs"
  shows "length (wrap_loop w' xs []) \<le> length (wrap_loop w xs [])"
proof -
  have reg': "regular w' xs"
    using assms by (auto simp: regular_def list_all_iff)
  have "length (wrap_loop w' (drop 0 xs) [[]]) + length [[]::pystr]
        \<le> length (wrap_loop w xs [[]]) + length [[]::pystr]"
    by (rule stays_ahead [OF assms(1)]) (use assms(2) in \<open>simp_all add: regular_def list_all_iff\<close>)
  then show ?thesis
    using wrap_loop_first [OF assms(2), of "[]"] wrap_loop_first [OF reg', of "[]"] by simp
qed

lemma length_placed:
  "length (placed x y step color rows) = length (filter (\<lambda>r. r \<noteq> None) rows)"
proof (induction rows arbitrary: y)
  case Nil
  show ?case by simp
next
  case (Cons r rows)
  show ?case by (cases r) (simp_all add: Cons.IH)
qed

lemma emitted_rows_mono:
  assumes "w \<le> w'"
    and "\<forall>para \<in> set paras. strip para \<noteq> [] \<longrightarrow> regular w (split_chunks u para)"
  shows "length (filter (\<lambda>r. r \<noteq> None) (emitted_rows u w' paras))
       \<le> length (filter (\<lambda>r. r \<noteq> None) (emitted_rows u w paras))"
  using assms(2)
proof (induction paras)
  case Nil
  show ?case by simp
next
  case (Cons para paras)
  have IH: "length (filter (\<lambda>r. r \<noteq> None) (emitted_rows u w' paras))
       \<le> length (filter (\<lambda>r. r \<noteq> None) (emitted_rows u w paras))"
    by (rule Cons.IH) (use Cons.prems in simp)
  show ?case
  proof (cases "strip para = []")
    case True
    with IH show ?thesis by simp
  next
    case False
    with Cons.prems have "regular w (split_chunks u para)" by simp
    from wrap_loop_mono [OF assms(1) this] IH False show ?thesis
      by (simp add: filter_map comp_def del: wrap_loop.simps)
  qed
qed

text \<open>
  Claim C6, as the code has it: for a fixed font and a text whose non-blank
  paragraphs have regular chunks at the column budget of the smaller width (no chunk
  longer than that budget, no blank chunk at the start of a paragraph, no two blank
  chunks in a row), a width budget at least as large never gives more drawn lines,
  when both column budgets and the line height are computed.
\<close>

theorem wider_budget_no_more_lines:
  assumes "max_width_1 \<le> max_width_2"
    and "cols font max_width_1 = Inr c1" "cols font max_width_2 = Inr c2"
    and "advance font line_spacing = Inr step"
    and "\<forall>para \<in> set (split_nl text).
           strip para \<noteq> [] \<longrightarrow> regular (nat c1) (split_chunks u para)"
  shows "\<exists>ops1 y1 ops2 y2.
     draw_wrapped u draw pos text font color max_width_1 line_spacing = Inr (draw @ ops1, y1) \<and>
     draw_wrapped u draw pos text font color max_width_2 line_spacing = Inr (draw @ ops2, y2) \<and>
     length ops2 \<le> length ops1"
proof -
  let ?rows = "\<lambda>c. emitted_rows u (nat c) (split_nl text)"
  let ?ops = "\<lambda>c. placed (fst pos) (snd pos) step color (?rows c)"
  have dw1: "draw_wrapped u draw pos text font color max_width_1 line_spacing =
      Inr (draw @ ?ops c1, snd pos + int (length (?rows c1)) * step)"
    using draw_wrapped_placed [OF assms(2) assms(4), of u draw "fst pos" "snd pos" "text" color]
    by simp
  have dw2: "draw_wrapped u draw pos text font color max_width_2 line_spacing =
      Inr (draw @ ?ops c2, snd pos + int (length (?rows c2)) * step)"
    using draw_wrapped_placed [OF assms(3) assms(4), of u draw "fst pos" "snd pos" "text" color]
    by simp
  have "nat c1 \<le> nat c2"
    using cols_mono [OF assms(1) assms(2) assms(3)] by simp
  from emitted_rows_mono [OF this assms(5)]
  have "length (?ops c2) \<le> length (?ops c1)"
    by (simp only: length_placed)
  with dw1 dw2 show ?thesis by blast
qed

theorem wider_budget_no_more_lines_witness:
  "(20 :: int) \<le> 40 \<and>
   cols (mono_font 10 1) 20 = Inr 20 \<and> cols (mono_font 10 1) 40 = Inr 40 \<and>
   advance (mono_font 10 1) (Finite (1/4)) = Inr 12 \<and>
   (\<exists>ops1 y1 ops2 y2.
     draw_wrapped ascii_ucd [] (0, 0) (str ''In ruhigen Saetzen, klarer Absicht und besonnener Sprache.'')
       (mono_font 10 1) ink 20 (Finite (1/4)) = Inr ([] @ ops1, y1) \<and>
     draw_wrapped ascii_ucd [] (0, 0) (str ''In ruhigen Saetzen, klarer Absicht und besonnener Sprache.'')
       (mono_font 10 1) ink 40 (Finite (1/4)) = Inr ([] @ ops2, y2) \<and>
     length ops2 \<le> length ops1)"
proof -
  have le: "(20 :: int) \<le> 40" by simp
  have c1: "cols (mono_font 10 1) 20 = Inr 20"
    by (simp add: engine_eval)
  have c2: "cols (mono_font 10 1) 40 = Inr 40"
    by (simp add: engine_eval)
  have a: "advance (mono_font 10 1) (Finite (1/4)) = Inr 12"
    by (simp add: advance_def mono_font_def float_eval)
  have reg: "\<forall>para \<in> set (split_nl (str ''In ruhigen Saetzen, klarer Absicht und besonnener Sprache.'')).
      strip para \<noteq> [] \<longrightarrow> regular (nat 20) (split_chunks ascii_ucd para)"
    by (simp add: engine_eval regular_def)
  from wider_budget_no_more_lines [OF le c1 c2 a reg, of "[]" "(0, 0)" ink] le c1 c2 a show ?thesis
    by simp
qed

text \<open>
  Claim C6 as stated holds for every text.  With glyphs one pixel wide, a word of 21
  letters between two short words is drawn in two lines at 20 pixels, where the word
  is broken, and in three lines at 21 pixels, where it fits a line of its own.
\<close>

theorem wider_budget_more_lines_counterexample:
  "draw_wrapped ascii_ucd [] (0, 0) (str ''a bbbbbbbbbbbbbbbbbbbbb c'') (mono_font 10 1) ink 20 (Finite (1/4)) =
     Inr ([\<lparr>xy = (0, 0), op_text = str ''a bbbbbbbbbbbbbbbbbb'', fill = ink\<rparr>,
           \<lparr>xy = (0, 12), op_text = str ''bbb c'', fill = ink\<rparr>], 24) \<and>
   draw_wrapped ascii_ucd [] (0, 0) (str ''a bbbbbbbbbbbbbbbbbbbbb c'') (mono_font 10 1) ink 21 (Finite (1/4)) =
     Inr ([\<lparr>xy = (0, 0), op_text = str ''a'', fill = ink\<rparr>,
           \<lparr>xy = (0, 12), op_text = str ''bbbbbbbbbbbbbbbbbbbbb'', fill = ink\<rparr>,
           \<lparr>xy = (0, 24), op_text = str ''c'', fill = ink\<rparr>], 36)"
  by (simp add: engine_eval)

text \<open>
  The other two conditions on the chunks are needed as well: a paragraph that starts
  with blanks, and a paragraph with a run of no-break spaces (code point 160) next to
  blanks, both have more lines at 21 columns than at 20.
\<close>

lemma leading_space_more_lines:
  "draw_wrapped ascii_ucd [] (0, 0) (str ''   aaaaaaaaaaaaaaaaaa c dddddddddddddddddddd'') (mono_font 10 1) ink 20 (Finite (1/4)) =
     Inr ([\<lparr>xy = (0, 0), op_text = str ''aaaaaaaaaaaaaaaaaa c'', fill = ink\<rparr>,
           \<lparr>xy = (0, 12), op_text = str ''dddddddddddddddddddd'', fill = ink\<rparr>], 24) \<and>
   draw_wrapped ascii_ucd [] (0, 0) (str ''   aaaaaaaaaaaaaaaaaa c dddddddddddddddddddd'') (mono_font 10 1) ink 21 (Finite (1/4)) =
     Inr ([\<lparr>xy = (0, 0), op_text = str ''   aaaaaaaaaaaaaaaaaa'', fill = ink\<rparr>,
           \<lparr>xy = (0, 12), op_text = str ''c'', fill = ink\<rparr>,
           \<lparr>xy = (0, 24), op_text = str ''dddddddddddddddddddd'', fill = ink\<rparr>], 36)"
  by (simp add: engine_eval)

lemma adjacent_blank_chunks_more_lines:
  "draw_wrapped ascii_ucd [] (0, 0)
     (str ''aaaaaaaaaaaaaaaaaa   '' @
      [160, 160, 160, 160, 160, 160, 160, 160, 160, 160, 160, 160, 160, 160, 160, 160, 160, 160] @
      str ''   '' @ [160]) (mono_font 10 1) ink 20 (Finite (1/4)) =
     Inr ([\<lparr>xy = (0, 0), op_text = str ''aaaaaaaaaaaaaaaaaa'', fill = ink\<rparr>], 12) \<and>
   draw_wrapped ascii_ucd [] (0, 0)
     (str ''aaaaaaaaaaaaaaaaaa   '' @
      [160, 160, 160, 160, 160, 160, 160, 160, 160, 160, 160, 160, 160, 160, 160, 160, 160, 160] @
      str ''   '' @ [160]) (mono_font 10 1) ink 21 (Finite (1/4)) =
     Inr ([\<lparr>xy = (0, 0), op_text = str ''aaaaaaaaaaaaaaaaaa'', fill = ink\<rparr>,
           \<lparr>xy = (0, 12), op_text = str ''   '', fill = ink\<rparr>], 24)"
  by (simp add: engine_eval)

end
